theory Spec2Isabelle
  imports Main "HOL-Library.Product_Lexorder"
begin

section \<open>MIDI messages\<close>

text \<open>
  A message of a \<^verbatim>\<open>mido\<close> track, as far as the code reads it: its type, and for the two
  note types the attributes \<^verbatim>\<open>channel\<close>, \<^verbatim>\<open>note\<close> (here \<open>note'\<close>), \<^verbatim>\<open>velocity\<close> and the
  delta time \<^verbatim>\<open>time\<close>. Every other message (meta messages, control changes, ...) is an
  \<open>OtherMsg\<close> with its type name and delta time.
\<close>

datatype msg =
    NoteOn (channel: int) (note': int) (velocity: int) (time: int)
  | NoteOff (channel: int) (note': int) (velocity: int) (time: int)
  | OtherMsg (type_name: string) (time: int)

text \<open>\<^verbatim>\<open>msg.type == 'note_on' and msg.velocity > 0\<close>\<close>

definition is_on :: "msg \<Rightarrow> bool" where
  "is_on m = (case m of NoteOn _ _ v _ \<Rightarrow> v > 0 | _ \<Rightarrow> False)"

text \<open>\<^verbatim>\<open>msg.type == 'note_off' or (msg.type == 'note_on' and msg.velocity == 0)\<close>\<close>

definition is_off :: "msg \<Rightarrow> bool" where
  "is_off m = (case m of NoteOff _ _ _ _ \<Rightarrow> True | NoteOn _ _ v _ \<Rightarrow> v = 0 | _ \<Rightarrow> False)"

section \<open>Event stream builder and timeline sampler (\_get\_sounding\_notes\_per\_16th)\<close>

datatype error = ZeroDivisionError

text \<open>An entry of \<^verbatim>\<open>events\<close>: the tuple \<^verbatim>\<open>('on' | 'off', abs_time, note)\<close>.\<close>

datatype ev_kind = On | Off

type_synonym event = "ev_kind \<times> int \<times> int"

text \<open>
  The inner loop over the messages of one track: the running \<^verbatim>\<open>abs_time\<close> and the
  events appended for the track, in message order.
\<close>

fun track_events :: "int \<Rightarrow> msg list \<Rightarrow> event list" where
  "track_events abs_time [] = []"
| "track_events abs_time (m # rest) =
     (let abs_time' = abs_time + time m
      in (if is_on m then [(On, abs_time', note' m)]
          else if is_off m then [(Off, abs_time', note' m)]
          else [])
         @ track_events abs_time' rest)"

text \<open>The outer loop: every track starts again at \<^verbatim>\<open>abs_time = 0\<close>.\<close>

definition collect_events :: "msg list list \<Rightarrow> event list" where
  "collect_events tracks = concat (map (track_events 0) tracks)"

text \<open>
  \<^verbatim>\<open>events.sort(key=lambda x: (x[1], 0 if x[0] == 'off' else 1))\<close>: Python's sort is stable
  and compares the key tuples lexicographically, as \<open>sort_key\<close> does on pairs.
\<close>

definition sort_rank :: "event \<Rightarrow> int \<times> nat" where
  "sort_rank x = (fst (snd x), if fst x = Off then 0 else 1)"

definition sorted_events :: "msg list list \<Rightarrow> event list" where
  "sorted_events tracks = sort_key sort_rank (collect_events tracks)"

text \<open>\<^verbatim>\<open>max(t for _, t, _ in events) if events else 0\<close>\<close>

definition last_event_tick :: "event list \<Rightarrow> int" where
  "last_event_tick events = (if events = [] then 0 else Max (set (map (\<lambda>x. fst (snd x)) events)))"

text \<open>
  Python's \<^verbatim>\<open>round\<close> (ties go to the even integer) of the quotient \<open>n / d\<close>, for
  \<open>d \<noteq> 0\<close>, in integer arithmetic. The source computes
  \<^verbatim>\<open>int(round(last_tick / ticks_per_16th))\<close> with \<^verbatim>\<open>ticks_per_16th = ticks_per_beat / 4.0\<close>
  in double precision; on integers below \<open>2 ^ 50\<close> the division by 4.0 is exact and the
  correctly rounded quotient rounds to the same integer as the exact one, so the model
  computes with the exact quotient \<open>4 * last_tick / ticks_per_beat\<close>.
\<close>

definition py_round_div :: "int \<Rightarrow> int \<Rightarrow> int" where
  "py_round_div n d =
     (let n' = (if d < 0 then - n else n); d' = \<bar>d\<bar>; q = n' div d'; r = n' mod d'
      in if 2 * r < d' then q
         else if 2 * r > d' then q + 1
         else if even q then q else q + 1)"

text \<open>
  \<^verbatim>\<open>int(x)\<close> of the quotient \<open>n / d\<close> for \<open>d > 0\<close>: truncation towards zero. It models
  \<^verbatim>\<open>int(tick_16th * ticks_per_16th)\<close>, the product \<open>tick_16th * ticks_per_beat / 4\<close> being
  exact in double precision.
\<close>

definition py_trunc_div :: "int \<Rightarrow> int \<Rightarrow> int" where
  "py_trunc_div n d = (if 0 \<le> n then n div d else - ((- n) div d))"

text \<open>The body of the sweep: \<^verbatim>\<open>active.add(n)\<close> for \<^verbatim>\<open>'on'\<close>, \<^verbatim>\<open>active.discard(n)\<close> for \<^verbatim>\<open>'off'\<close>.\<close>

fun apply_event :: "int set \<Rightarrow> ev_kind \<Rightarrow> int \<Rightarrow> int set" where
  "apply_event active On n = insert n active"
| "apply_event active Off n = active - {n}"

text \<open>The loop over the sorted events for one target tick, left at the first later event.\<close>

fun sweep :: "int \<Rightarrow> int set \<Rightarrow> event list \<Rightarrow> int set" where
  "sweep target_tick active [] = active"
| "sweep target_tick active ((typ, t, n) # rest) =
     (if t > target_tick then active
      else sweep target_tick (apply_event active typ n) rest)"

definition total_16ths_of :: "int \<Rightarrow> event list \<Rightarrow> int" where
  "total_16ths_of ticks_per_beat events = py_round_div (4 * last_event_tick events) ticks_per_beat"

text \<open>
  The function itself. A zero \<^verbatim>\<open>ticks_per_beat\<close> makes \<^verbatim>\<open>last_tick / ticks_per_16th\<close>
  raise; \<^verbatim>\<open>range(total_16ths)\<close> is empty when \<^verbatim>\<open>total_16ths\<close> is not positive.
\<close>

definition get_sounding_notes_per_16th :: "int \<Rightarrow> msg list list \<Rightarrow> error + (int list list \<times> int)" where
  "get_sounding_notes_per_16th ticks_per_beat tracks =
     (let events = sorted_events tracks
      in if ticks_per_beat = 0 then Inl ZeroDivisionError
         else let total_16ths = total_16ths_of ticks_per_beat events;
                  result = map (\<lambda>tick_16th.
                                  sorted_list_of_set
                                    (sweep (py_trunc_div (int tick_16th * ticks_per_beat) 4) {} events))
                               [0 ..< nat total_16ths]
              in Inr (result, total_16ths))"


section \<open>Harmonic analysis report (save\_harmonic\_analysis, MIDI path)\<close>

text \<open>
  What a call leaves behind: the value it returns (\<^verbatim>\<open>False\<close> or \<^verbatim>\<open>None\<close>) and what
  happened to the output file: never opened, written (the rows after the fixed header,
  each the tick, the chord name and the function label), or written and removed again.
\<close>

datatype returned = ReturnFalse | ReturnNone

datatype file_effect = Untouched | Written "(int \<times> string \<times> string) list" | Removed

text \<open>
  The body of the loop over the ticks, for the MIDI path: \<^verbatim>\<open>chord_name\<close> and \<^verbatim>\<open>func\<close>
  start as \<^verbatim>\<open>"Rest"\<close> and \<^verbatim>\<open>"-"\<close> and are overwritten when \<^verbatim>\<open>midi_notes\<close> is not empty.
  The chord naming of music21 (\<^verbatim>\<open>pitchedCommonName\<close> and the figure of
  \<^verbatim>\<open>romanNumeralFromChord\<close> in the detected key) is the parameter \<open>naming\<close>, from the
  sorted MIDI notes to the pair of the chord name and the function label; the calls into
  music21 are taken to return normally.
\<close>

definition name_and_func :: "(int list \<Rightarrow> string \<times> string) \<Rightarrow> int list \<Rightarrow> string \<times> string" where
  "name_and_func naming midi_notes = (if midi_notes \<noteq> [] then naming midi_notes else (''Rest'', ''-''))"

text \<open>
  The loop \<^verbatim>\<open>for tick in range(total_16ths)\<close> with the rows written so far. An index
  beyond \<^verbatim>\<open>sounding_notes\<close> raises IndexError, which the enclosing \<^verbatim>\<open>except\<close> swallows:
  the call returns \<^verbatim>\<open>None\<close> and the rows written so far stay in the file.
\<close>

fun report_loop ::
  "(int list \<Rightarrow> string \<times> string) \<Rightarrow> int list list \<Rightarrow> (int \<times> string \<times> string) list \<Rightarrow> nat list
     \<Rightarrow> returned \<times> file_effect" where
  "report_loop naming sounding_notes rows [] = (ReturnNone, Written rows)"
| "report_loop naming sounding_notes rows (tick # ticks) =
     (if tick \<ge> length sounding_notes then (ReturnNone, Written rows)
      else (case name_and_func naming (sounding_notes ! tick) of
              (chord_name, func) \<Rightarrow>
                if chord_name = ''Rest'' then (ReturnNone, Removed)
                else report_loop naming sounding_notes
                       (rows @ [(int tick, chord_name, func)]) ticks))"

text \<open>
  The MIDI path of \<^verbatim>\<open>save_harmonic_analysis\<close>, from the detected mode on:
  \<open>key_is_minor\<close> is the answer of music21's key analysis. An exception of the sampler is
  swallowed by the \<^verbatim>\<open>except\<close> before the file is opened. The gate is the loop that
  returns \<^verbatim>\<open>False\<close> at the first entry of \<^verbatim>\<open>sounding_notes\<close> with fewer than 3 notes.
  (The MusicXML path, which samples through music21's \<^verbatim>\<open>chordify\<close>, is not modelled.)
\<close>

definition save_harmonic_analysis ::
  "bool \<Rightarrow> (int list \<Rightarrow> string \<times> string) \<Rightarrow> int \<Rightarrow> msg list list \<Rightarrow> returned \<times> file_effect" where
  "save_harmonic_analysis key_is_minor naming ticks_per_beat tracks =
     (if key_is_minor then (ReturnFalse, Untouched)
      else (case get_sounding_notes_per_16th ticks_per_beat tracks of
              Inl _ \<Rightarrow> (ReturnNone, Untouched)
            | Inr (sounding_notes, total_16ths) \<Rightarrow>
                if list_ex (\<lambda>notes. length notes < 3) sounding_notes then (ReturnFalse, Untouched)
                else report_loop naming sounding_notes [] [0 ..< nat total_16ths]))"


section \<open>Chord classifier (adisi\_utils/get\_chords\_per\_16th.py)\<close>

definition NOTES :: "string list" where
  "NOTES = [''C'', ''C#'', ''D'', ''D#'', ''E'', ''F'', ''F#'', ''G'', ''G#'', ''A'', ''A#'', ''B'']"

text \<open>The keys of the dictionary returned by \<^verbatim>\<open>_get_intervals\<close>, and the dictionary.\<close>

datatype interval = m2 | M2 | m3 | M3 | p4 | d5 | p5 | a5 | d7 | m7 | M7

fun get_intervals :: "int \<Rightarrow> interval \<Rightarrow> int" where
  "get_intervals root_pc m2 = (root_pc + 1) mod 12"
| "get_intervals root_pc M2 = (root_pc + 2) mod 12"
| "get_intervals root_pc m3 = (root_pc + 3) mod 12"
| "get_intervals root_pc M3 = (root_pc + 4) mod 12"
| "get_intervals root_pc p4 = (root_pc + 5) mod 12"
| "get_intervals root_pc d5 = (root_pc + 6) mod 12"
| "get_intervals root_pc p5 = (root_pc + 7) mod 12"
| "get_intervals root_pc a5 = (root_pc + 8) mod 12"
| "get_intervals root_pc d7 = (root_pc + 9) mod 12"
| "get_intervals root_pc m7 = (root_pc + 10) mod 12"
| "get_intervals root_pc M7 = (root_pc + 11) mod 12"

text \<open>
  The candidate root is always a pitch class between 0 and 11, so \<^verbatim>\<open>NOTES[root_pc]\<close> is
  \<open>NOTES ! nat root_pc\<close>.
\<close>

definition check_sus_chord :: "int \<Rightarrow> int set \<Rightarrow> (interval \<Rightarrow> int) \<Rightarrow> string option" where
  "check_sus_chord root_pc pc iv =
     (if iv M2 \<in> pc \<and> iv p5 \<in> pc
      then Some (NOTES ! nat root_pc @ ''sus2'' @ (if iv m7 \<in> pc then ''7'' else ''''))
      else if iv p4 \<in> pc \<and> iv p5 \<in> pc
      then Some (NOTES ! nat root_pc @ ''sus4'' @ (if iv m7 \<in> pc then ''7'' else ''''))
      else None)"

definition get_tensions :: "int \<Rightarrow> int set \<Rightarrow> (interval \<Rightarrow> int) \<Rightarrow> bool \<Rightarrow> string list" where
  "get_tensions root_pc pc iv has_3rd =
     (if iv m2 \<in> pc then [''b9''] else [])
     @ (if iv d5 \<in> pc \<and> has_3rd \<and> iv p5 \<in> pc then [''#11''] else [])
     @ (if iv a5 \<in> pc \<and> (iv m7 \<in> pc \<or> iv M7 \<in> pc) then [''b13''] else [])"

definition check_major_chord :: "int \<Rightarrow> int set \<Rightarrow> (interval \<Rightarrow> int) \<Rightarrow> string list \<Rightarrow> string option" where
  "check_major_chord root_pc pc iv tensions =
     (if iv M3 \<in> pc \<and> iv p5 \<in> pc
      then (let base = NOTES ! nat root_pc
                         @ (if iv M7 \<in> pc then ''maj7'' else if iv m7 \<in> pc then ''7'' else '''')
            in Some (if tensions \<noteq> [] then base @ concat tensions else base))
      else None)"

definition check_minor_chord :: "int \<Rightarrow> int set \<Rightarrow> (interval \<Rightarrow> int) \<Rightarrow> string list \<Rightarrow> string option" where
  "check_minor_chord root_pc pc iv tensions =
     (if iv m3 \<in> pc \<and> iv p5 \<in> pc
      then (let base = NOTES ! nat root_pc @ ''m'' @ (if iv m7 \<in> pc then ''7'' else '''')
            in Some (if tensions \<noteq> [] then base @ concat tensions else base))
      else None)"

definition check_dim_chord :: "int \<Rightarrow> int set \<Rightarrow> (interval \<Rightarrow> int) \<Rightarrow> string list \<Rightarrow> string option" where
  "check_dim_chord root_pc pc iv tensions =
     (if iv m3 \<in> pc \<and> iv d5 \<in> pc
      then (if iv d7 \<in> pc then Some (NOTES ! nat root_pc @ ''dim7'')
            else if iv m7 \<in> pc then Some (NOTES ! nat root_pc @ ''m7b5'')
            else Some (NOTES ! nat root_pc @ ''dim''))
      else None)"

definition check_aug_chord :: "int \<Rightarrow> int set \<Rightarrow> (interval \<Rightarrow> int) \<Rightarrow> string list \<Rightarrow> string option" where
  "check_aug_chord root_pc pc iv tensions =
     (if iv M3 \<in> pc \<and> iv a5 \<in> pc then Some (NOTES ! nat root_pc @ ''aug'') else None)"

text \<open>
  Python's truth value of an \<^verbatim>\<open>Optional[str]\<close>, as tested by \<^verbatim>\<open>if chord := ...\<close>:
  \<^verbatim>\<open>None\<close> and the empty string are false.
\<close>

definition truthy :: "string option \<Rightarrow> bool" where
  "truthy x = (case x of None \<Rightarrow> False | Some s \<Rightarrow> s \<noteq> [])"

text \<open>The loop over the four checks: the first result that is true is returned.\<close>

fun first_truthy :: "string option list \<Rightarrow> string option" where
  "first_truthy [] = None"
| "first_truthy (x # xs) = (if truthy x then x else first_truthy xs)"

definition find_chord_type :: "int \<Rightarrow> int set \<Rightarrow> string option" where
  "find_chord_type root_pc pc =
     (let iv = get_intervals root_pc;
          has_3rd = (iv m3 \<in> pc \<or> iv M3 \<in> pc)
      in if \<not> has_3rd \<and> truthy (check_sus_chord root_pc pc iv)
         then check_sus_chord root_pc pc iv
         else (let tensions = get_tensions root_pc pc iv has_3rd
               in first_truthy [check_major_chord root_pc pc iv tensions,
                                check_minor_chord root_pc pc iv tensions,
                                check_dim_chord root_pc pc iv tensions,
                                check_aug_chord root_pc pc iv tensions]))"

text \<open>\<^verbatim>\<open>pc = {n % 12 for n in notes}\<close>; Python's \<^verbatim>\<open>%\<close> with a positive modulus is \<open>mod\<close>.\<close>

definition pitch_classes :: "int set \<Rightarrow> int set" where
  "pitch_classes notes = (\<lambda>n. n mod 12) ` notes"

text \<open>
  The loop \<^verbatim>\<open>for r in sorted(pc)\<close> of \<^verbatim>\<open>_notes_to_chord\<close>, and after it the fallback to
  the name of the bass pitch class.
\<close>

fun root_loop :: "int \<Rightarrow> int set \<Rightarrow> int list \<Rightarrow> string option" where
  "root_loop bass_pc pc [] = Some (NOTES ! nat bass_pc)"
| "root_loop bass_pc pc (r # rs) =
     (case find_chord_type r pc of
        None \<Rightarrow> root_loop bass_pc pc rs
      | Some chord \<Rightarrow>
          if chord \<noteq> []
          then Some (if bass_pc \<noteq> r then chord @ ''/'' @ NOTES ! nat bass_pc else chord)
          else root_loop bass_pc pc rs)"

text \<open>\<^verbatim>\<open>_notes_to_chord\<close>; a Python set is finite, \<^verbatim>\<open>len\<close> is \<open>card\<close> and \<^verbatim>\<open>min\<close> is \<open>Min\<close>.\<close>

definition notes_to_chord :: "int set \<Rightarrow> string option" where
  "notes_to_chord notes =
     (if notes = {} \<or> card notes > 4 then None
      else (let pc = pitch_classes notes;
                bass_pc = Min notes mod 12
            in root_loop bass_pc pc (sorted_list_of_set pc)))"

text \<open>\<^verbatim>\<open>c or 'rest'\<close>, as the two report writers print a label.\<close>

definition or_rest :: "string option \<Rightarrow> string" where
  "or_rest c = (case c of None \<Rightarrow> ''rest'' | Some s \<Rightarrow> if s \<noteq> [] then s else ''rest'')"

text \<open>
  A note message of \<^verbatim>\<open>MidiDict\<close>: the entries \<^verbatim>\<open>pitch\<close>, \<^verbatim>\<open>start\<close> and \<^verbatim>\<open>end\<close>
  (in ticks) of its \<^verbatim>\<open>data\<close>.
\<close>

record note_msg =
  pitch :: int
  start' :: int
  end' :: int

text \<open>
  The set comprehension of \<^verbatim>\<open>_extract_chords\<close> at the sample time \<open>t\<close>. The conversion
  \<^verbatim>\<open>md.tick_to_ms\<close> belongs to the library \<^verbatim>\<open>ariautils\<close> and is a parameter, into any
  linearly ordered type of times.
\<close>

definition sampled_notes :: "(int \<Rightarrow> 'a::linorder) \<Rightarrow> note_msg list \<Rightarrow> 'a \<Rightarrow> int set" where
  "sampled_notes tick_to_ms note_msgs t =
     set (map pitch
            (filter (\<lambda>msg. tick_to_ms (start' msg) \<le> t \<and> t < tick_to_ms (end' msg) \<and>
                            21 \<le> pitch msg \<and> pitch msg \<le> 108)
               note_msgs))"

text \<open>
  \<^verbatim>\<open>_extract_chords\<close>. The sample times
  \<^verbatim>\<open>[i * step_ms for i in range(int(max_ms / step_ms) + 1)]\<close> are computed in floating
  point from the tempo and from \<^verbatim>\<open>max_ms\<close>; they enter as the parameter \<open>grid\<close>, a function
  of \<^verbatim>\<open>max_ms\<close>.
\<close>

definition extract_chords ::
  "(int \<Rightarrow> 'a::linorder) \<Rightarrow> ('a \<Rightarrow> 'a list) \<Rightarrow> note_msg list \<Rightarrow> string option list" where
  "extract_chords tick_to_ms grid note_msgs =
     (if note_msgs = [] then []
      else (let max_ms = Max (set (map (\<lambda>msg. tick_to_ms (end' msg)) note_msgs))
            in map (\<lambda>t. notes_to_chord (sampled_notes tick_to_ms note_msgs t)) (grid max_ms)))"

text \<open>The test on the pitch in that comprehension.\<close>

definition in_piano_range :: "note_msg \<Rightarrow> bool" where
  "in_piano_range msg = (21 \<le> pitch msg \<and> pitch msg \<le> 108)"


section \<open>Cadence detector (adisi\_main.py)\<close>

text \<open>
  One sample of the parsed report: the dictionary \<^verbatim>\<open>{'tick': ..., 'function': ...}\<close>
  that \<^verbatim>\<open>parse_harmonic_output\<close> appends for every data line. The field
  \<^verbatim>\<open>function\<close> is called \<open>func\<close> here.
\<close>

record sample =
  tick :: int
  func :: string

text \<open>
  One compressed run: the dictionary with the keys \<^verbatim>\<open>function\<close> (here \<open>function'\<close>),
  \<^verbatim>\<open>start_tick\<close> and \<^verbatim>\<open>duration\<close> built by \<^verbatim>\<open>get_chord_events\<close>.
\<close>

record chord_event =
  function' :: string
  start_tick :: int
  duration :: int

text \<open>
  The \<^verbatim>\<open>for\<close> loop of \<^verbatim>\<open>get_chord_events\<close>, with its three mutable variables
  \<^verbatim>\<open>events\<close>, \<^verbatim>\<open>current_func\<close> and \<^verbatim>\<open>start_tick\<close> passed as state.
\<close>

fun compress_loop ::
  "chord_event list \<Rightarrow> string \<Rightarrow> int \<Rightarrow> sample list \<Rightarrow> chord_event list \<times> string \<times> int" where
  "compress_loop events current_func start [] = (events, current_func, start)"
| "compress_loop events current_func start (tick_data # rest) =
     (if func tick_data \<noteq> current_func
      then compress_loop
             (events @ [\<lparr>function' = current_func, start_tick = start,
                         duration = tick tick_data - start\<rparr>])
             (func tick_data) (tick tick_data) rest
      else compress_loop events current_func start rest)"

definition get_chord_events :: "sample list \<Rightarrow> chord_event list" where
  "get_chord_events timeline =
     (if timeline = [] then []
      else (case compress_loop [] (func (hd timeline)) (tick (hd timeline)) timeline of
              (events, current_func, start) \<Rightarrow>
                events @ [\<lparr>function' = current_func, start_tick = start,
                            duration = tick (last timeline) - start + 1\<rparr>]))"

text \<open>
  The expansion of the specification's round-trip property (it has no counterpart in the
  source): every run becomes \<open>duration\<close> many copies of its label.
\<close>

definition expand_events :: "chord_event list \<Rightarrow> string list" where
  "expand_events events = concat (map (\<lambda>e. replicate (nat (duration e)) (function' e)) events)"

text \<open>A timeline sampled at consecutive subdivision ticks, starting at tick \<open>t\<close>.\<close>

fun consecutive_from :: "int \<Rightarrow> sample list \<Rightarrow> bool" where
  "consecutive_from t [] = True"
| "consecutive_from t (s # rest) = (tick s = t \<and> consecutive_from (t + 1) rest)"

text \<open>
  The two label tests of \<^verbatim>\<open>is_perfect_cadence\<close> (its local variables
  \<^verbatim>\<open>is_dominant\<close> and \<^verbatim>\<open>is_tonic\<close>). \<^verbatim>\<open>s.startswith('V')\<close> is false on the empty
  string, and \<^verbatim>\<open>s[1]\<close> is only read when the length is not 1, hence at least 2.
\<close>

definition startswith :: "string \<Rightarrow> char \<Rightarrow> bool" where
  "startswith s c = (case s of [] \<Rightarrow> False | x # _ \<Rightarrow> x = c)"

definition is_dominant :: "string \<Rightarrow> bool" where
  "is_dominant prev_func =
     (startswith prev_func CHR ''V'' \<and>
      (length prev_func = 1 \<or> prev_func ! 1 \<notin> set [CHR ''I'', CHR ''i'']))"

definition is_tonic :: "string \<Rightarrow> bool" where
  "is_tonic curr_func =
     ((startswith curr_func CHR ''I'' \<or> startswith curr_func CHR ''i'') \<and>
      (length curr_func = 1 \<or>
       curr_func ! 1 \<notin> set [CHR ''I'', CHR ''i'', CHR ''V'', CHR ''v'']))"

definition is_perfect_cadence :: "chord_event \<Rightarrow> chord_event \<Rightarrow> bool" where
  "is_perfect_cadence prev_event curr_event =
     (if \<not> (is_dominant (function' prev_event) \<and> is_tonic (function' curr_event)) then False
      else if start_tick curr_event mod 4 \<noteq> 0 then False
      else if duration prev_event < 2 then False
      else True)"

text \<open>
  The body of the loop of \<^verbatim>\<open>find_cadences\<close> over the adjacent pairs, on the pair of
  result lists \<^verbatim>\<open>(strong_cadences, regular_cadences)\<close>.
\<close>

definition cadence_step :: "int list \<times> int list \<Rightarrow> chord_event \<times> chord_event \<Rightarrow> int list \<times> int list" where
  "cadence_step acc pair =
     (case acc of (strong_cadences, regular_cadences) \<Rightarrow>
      case pair of (prev_event, curr_event) \<Rightarrow>
        if is_perfect_cadence prev_event curr_event
        then (if duration curr_event \<ge> 8
              then (strong_cadences @ [start_tick curr_event], regular_cadences)
              else if duration curr_event \<ge> 2
              then (strong_cadences, regular_cadences @ [start_tick curr_event])
              else (strong_cadences, regular_cadences))
        else (strong_cadences, regular_cadences))"

text \<open>
  \<^verbatim>\<open>find_cadences\<close> from the compressed runs on: the loop over
  \<^verbatim>\<open>zip(chord_events, chord_events[1:])\<close>.
\<close>

definition scan_cadences :: "chord_event list \<Rightarrow> int list \<times> int list" where
  "scan_cadences chord_events = foldl cadence_step ([], []) (zip chord_events (tl chord_events))"

text \<open>
  \<^verbatim>\<open>find_cadences\<close> on the parsed timeline (the text parsing of
  \<^verbatim>\<open>parse_harmonic_output\<close> is not part of the model).
\<close>

definition find_cadences :: "sample list \<Rightarrow> int list \<times> int list" where
  "find_cadences timeline = scan_cadences (get_chord_events timeline)"

section \<open>Window extractor (cut\_midi\_at\_16th)\<close>

text \<open>
  The dictionary \<^verbatim>\<open>active_notes\<close>, from \<^verbatim>\<open>(channel, note)\<close> to the velocity, as an
  association list in insertion order (the order in which Python iterates over it):
  assigning to a key that is present keeps its position, assigning to a new key appends it.
\<close>

type_synonym active_notes = "((int \<times> int) \<times> int) list"

fun dict_set :: "active_notes \<Rightarrow> int \<times> int \<Rightarrow> int \<Rightarrow> active_notes" where
  "dict_set [] k v = [(k, v)]"
| "dict_set ((k', v') # rest) k v =
     (if k' = k then (k, v) # rest else (k', v') # dict_set rest k v)"

text \<open>\<^verbatim>\<open>if key in active_notes: del active_notes[key]\<close>\<close>

definition dict_del :: "active_notes \<Rightarrow> int \<times> int \<Rightarrow> active_notes" where
  "dict_del d k = filter (\<lambda>entry. fst entry \<noteq> k) d"

text \<open>The bookkeeping of case 1 (a message before the cut).\<close>

definition track_active :: "active_notes \<Rightarrow> msg \<Rightarrow> active_notes" where
  "track_active active m =
     (if is_on m then dict_set active (channel m, note' m) (velocity m)
      else if is_off m then dict_del active (channel m, note' m)
      else active)"

text \<open>
  The loop of case 3 over \<^verbatim>\<open>active_notes.items()\<close>: one
  \<^verbatim>\<open>note_off\<close> with velocity 0 per entry, the first with \<^verbatim>\<open>remaining_delta\<close>, the others
  with delta 0.
\<close>

fun closing_offs :: "int \<Rightarrow> active_notes \<Rightarrow> msg list" where
  "closing_offs remaining_delta [] = []"
| "closing_offs remaining_delta (((ch, n), v) # rest) =
     NoteOff ch n 0 remaining_delta # map (\<lambda>entry. NoteOff (fst (fst entry)) (snd (fst entry)) 0 0) rest"

text \<open>
  The loop over the messages of one track, with \<^verbatim>\<open>current_time\<close>, \<^verbatim>\<open>new_track\<close> and
  \<^verbatim>\<open>active_notes\<close> as state; the result is \<^verbatim>\<open>new_track\<close> when the loop is left (at the
  end of the track or by the \<^verbatim>\<open>break\<close> of case 3).
\<close>

fun cut_loop :: "int \<Rightarrow> int \<Rightarrow> msg list \<Rightarrow> active_notes \<Rightarrow> msg list \<Rightarrow> msg list" where
  "cut_loop cut_threshold_ticks current_time new_track active [] = new_track"
| "cut_loop cut_threshold_ticks current_time new_track active (m # rest) =
     (let current_time' = current_time + time m
      in if current_time' < cut_threshold_ticks
         then cut_loop cut_threshold_ticks current_time' (new_track @ [m]) (track_active active m) rest
         else if current_time' = cut_threshold_ticks
         then (if is_on m
               then cut_loop cut_threshold_ticks current_time' new_track active rest
               else cut_loop cut_threshold_ticks current_time' (new_track @ [m])
                      (if is_off m then dict_del active (channel m, note' m) else active) rest)
         else new_track @ closing_offs (cut_threshold_ticks - (current_time' - time m)) active)"

definition end_of_track :: msg where
  "end_of_track = OtherMsg ''end_of_track'' 0"

text \<open>One track of the output file.\<close>

definition cut_track :: "int \<Rightarrow> msg list \<Rightarrow> msg list" where
  "cut_track cut_threshold_ticks track = cut_loop cut_threshold_ticks 0 [] [] track @ [end_of_track]"

text \<open>
  \<^verbatim>\<open>cut_midi_at_16th\<close> on the tracks of the loaded file:
  \<^verbatim>\<open>cut_threshold_ticks = int(cut_16th_index * ticks_per_16th)\<close>, then every track is cut.
\<close>

definition cut_midi_at_16th :: "int \<Rightarrow> msg list list \<Rightarrow> int \<Rightarrow> msg list list" where
  "cut_midi_at_16th ticks_per_beat tracks cut_16th_index =
     map (cut_track (py_trunc_div (cut_16th_index * ticks_per_beat) 4)) tracks"

text \<open>
  For the statements about absolute ticks: every message of a track with its absolute tick
  (the value of \<^verbatim>\<open>current_time\<close> after the message's delta has been added), and the total
  delta time of a track.
\<close>

fun with_abs :: "int \<Rightarrow> msg list \<Rightarrow> (msg \<times> int) list" where
  "with_abs current_time [] = []"
| "with_abs current_time (m # rest) =
     (m, current_time + time m) # with_abs (current_time + time m) rest"

definition total_time :: "msg list \<Rightarrow> int" where
  "total_time track = sum_list (map time track)"

text \<open>
  The messages that the first two cases of the loop copy, by absolute tick: those before
  the cut, and those exactly at the cut that are not On events.
\<close>

definition kept_at_cut :: "int \<Rightarrow> msg \<times> int \<Rightarrow> bool" where
  "kept_at_cut cut_tick x = (snd x < cut_tick \<or> (snd x = cut_tick \<and> \<not> is_on (fst x)))"

text \<open>The dictionary key \<^verbatim>\<open>(msg.channel, msg.note)\<close> of a note message.\<close>

definition msg_key :: "msg \<Rightarrow> int \<times> int" where
  "msg_key m = (channel m, note' m)"

text \<open>
  The active set of the specification, as a plain set of (channel, pitch) pairs, after a
  list of copied messages: an On inserts its pair, an Off removes it, any other message
  leaves the set alone. It is the reference against which the dictionary of the code is
  compared; it does not use the dictionary operations.
\<close>

fun sounding_keys :: "(int \<times> int) set \<Rightarrow> msg list \<Rightarrow> (int \<times> int) set" where
  "sounding_keys sounding [] = sounding"
| "sounding_keys sounding (m # rest) =
     sounding_keys (if is_on m then insert (msg_key m) sounding
                    else if is_off m then sounding - {msg_key m}
                    else sounding) rest"


section \<open>Properties of the event stream builder and the timeline sampler\<close>

subsection \<open>Event stream builder\<close>

lemma track_events_append:
  "track_events a (pre @ post) =
   track_events a pre @ track_events (a + sum_list (map time pre)) post"
  by (induction pre arbitrary: a) (simp_all add: Let_def add.assoc)

lemma sorted_events_ranks: "sorted (map sort_rank (sorted_events tracks))"
  by (simp add: sorted_events_def)

lemma sort_rank_same_tick:
  "fst (snd x) = fst (snd y) \<Longrightarrow> sort_rank x \<le> sort_rank y \<Longrightarrow> \<not> (fst x = On \<and> fst y = Off)"
  by (auto simp: sort_rank_def less_eq_prod_def)

text \<open>
  Claim C5 (tie-break invariant). In the sorted event list, of two events with the same
  absolute tick the earlier one is never an On while the later one is an Off: an Off never
  sorts after an On. And a \<^verbatim>\<open>note_on\<close> message with velocity 0, wherever it stands in
  a track, contributes an Off event (at its absolute tick), never an On event.
\<close>

theorem tie_break_invariant:
  "(\<forall>i j. i < j \<and> j < length (sorted_events tracks) \<and>
          fst (snd (sorted_events tracks ! i)) = fst (snd (sorted_events tracks ! j)) \<longrightarrow>
          \<not> (fst (sorted_events tracks ! i) = On \<and> fst (sorted_events tracks ! j) = Off)) \<and>
   track_events a (pre @ NoteOn c n 0 d # post) =
     track_events a pre @ (Off, a + sum_list (map time pre) + d, n)
       # track_events (a + sum_list (map time pre) + d) post"
proof (intro conjI allI impI)
  fix i j
  let ?out = "sorted_events tracks"
  assume h: "i < j \<and> j < length ?out \<and> fst (snd (?out ! i)) = fst (snd (?out ! j))"
  then have "map sort_rank ?out ! i \<le> map sort_rank ?out ! j"
    using sorted_events_ranks [of tracks] by (intro sorted_nth_mono) simp_all
  then have "sort_rank (?out ! i) \<le> sort_rank (?out ! j)"
    using h by simp
  with h show "\<not> (fst (?out ! i) = On \<and> fst (?out ! j) = Off)"
    by (intro sort_rank_same_tick) simp_all
next
  show "track_events a (pre @ NoteOn c n 0 d # post) =
     track_events a pre @ (Off, a + sum_list (map time pre) + d, n)
       # track_events (a + sum_list (map time pre) + d) post"
    by (simp add: track_events_append is_on_def is_off_def Let_def)
qed

theorem tie_break_invariant_witness:
  "sorted_events [[NoteOn 0 60 64 0, NoteOn 0 62 64 10], [NoteOn 0 60 0 10]] =
     [(On, 0, 60), (Off, 10, 60), (On, 10, 62)] \<and>
   (1::nat) < 2 \<and> 2 < length (sorted_events [[NoteOn 0 60 64 0, NoteOn 0 62 64 10], [NoteOn 0 60 0 10]]) \<and>
   \<not> (fst (sorted_events [[NoteOn 0 60 64 0, NoteOn 0 62 64 10], [NoteOn 0 60 0 10]] ! 1) = On \<and>
      fst (sorted_events [[NoteOn 0 60 64 0, NoteOn 0 62 64 10], [NoteOn 0 60 0 10]] ! 2) = Off)"
proof -
  let ?tracks = "[[NoteOn 0 60 64 0, NoteOn 0 62 64 10], [NoteOn 0 60 0 10]]"
  have e: "sorted_events ?tracks = [(On, 0, 60), (Off, 10, 60), (On, 10, 62)]"
    by code_simp
  from tie_break_invariant [of ?tracks 0 "[]" 0 60 10 "[]"]
  have "1 < (2::nat) \<and> 2 < length (sorted_events ?tracks) \<and>
          fst (snd (sorted_events ?tracks ! 1)) = fst (snd (sorted_events ?tracks ! 2)) \<longrightarrow>
          \<not> (fst (sorted_events ?tracks ! 1) = On \<and> fst (sorted_events ?tracks ! 2) = Off)"
    by blast
  with e show ?thesis by simp
qed

subsection \<open>Timeline sampler\<close>

lemma track_events_ticks_nonneg:
  "0 \<le> a \<Longrightarrow> \<forall>m\<in>set track. 0 \<le> time m \<Longrightarrow> \<forall>x\<in>set (track_events a track). 0 \<le> fst (snd x)"
proof (induction track arbitrary: a)
  case Nil
  show ?case by simp
next
  case (Cons m track)
  have a': "0 \<le> a + time m" using Cons.prems by simp
  have rest: "\<forall>m\<in>set track. 0 \<le> time m" using Cons.prems by simp
  from Cons.IH [OF a' rest] a' show ?case
    by (auto simp: Let_def)
qed

lemma last_event_tick_nonneg:
  assumes "\<forall>track\<in>set tracks. \<forall>m\<in>set track. 0 \<le> time m"
  shows "0 \<le> last_event_tick (sorted_events tracks)"
proof (cases "sorted_events tracks = []")
  case True
  then show ?thesis by (simp add: last_event_tick_def)
next
  case False
  have all: "\<forall>x\<in>set (sorted_events tracks). 0 \<le> fst (snd x)"
  proof
    fix x
    assume "x \<in> set (sorted_events tracks)"
    then obtain track where tr: "track \<in> set tracks" and x: "x \<in> set (track_events 0 track)"
      by (auto simp: sorted_events_def collect_events_def)
    from tr assms have "\<forall>m\<in>set track. 0 \<le> time m" by blast
    from track_events_ticks_nonneg [OF _ this, of 0] x show "0 \<le> fst (snd x)" by simp
  qed
  let ?S = "set (map (\<lambda>x. fst (snd x)) (sorted_events tracks))"
  have "Max ?S \<in> ?S" using False by (intro Max_in) simp_all
  then have "0 \<le> Max ?S" using all by auto
  with False show ?thesis by (simp add: last_event_tick_def)
qed

lemma py_round_div_nonneg: "0 \<le> n \<Longrightarrow> 0 < d \<Longrightarrow> 0 \<le> py_round_div n d"
proof -
  assume n: "0 \<le> n" and d: "0 < d"
  have q: "0 \<le> n div d" using n d by (simp add: pos_imp_zdiv_nonneg_iff)
  show ?thesis using q d by (simp add: py_round_div_def Let_def)
qed

text \<open>
  Claim C7 (timeline sampler). An On for a pitch that is already in the running active set
  leaves the set unchanged, and an Off for a pitch that is not in it is a no-op, both for
  the single update and for the sweep that meets such an event. For a positive
  \<^verbatim>\<open>ticks_per_beat\<close> and non-negative delta times the sampler returns normally, and the
  number of sampled subdivisions is \<^verbatim>\<open>round(last_event_tick / subdivision_length)\<close>, the
  subdivision length being \<^verbatim>\<open>ticks_per_beat / 4\<close>.
\<close>

theorem sampler_sets_and_count:
  assumes "0 < ticks_per_beat"
    and "\<forall>track\<in>set tracks. \<forall>m\<in>set track. 0 \<le> time m"
  shows "(n \<in> active \<longrightarrow> apply_event active On n = active) \<and>
         (n \<notin> active \<longrightarrow> apply_event active Off n = active) \<and>
         (n \<in> active \<and> t \<le> target_tick \<longrightarrow>
            sweep target_tick active ((On, t, n) # rest) = sweep target_tick active rest) \<and>
         (n \<notin> active \<and> t \<le> target_tick \<longrightarrow>
            sweep target_tick active ((Off, t, n) # rest) = sweep target_tick active rest) \<and>
         (\<exists>result. get_sounding_notes_per_16th ticks_per_beat tracks =
                      Inr (result, py_round_div (4 * last_event_tick (sorted_events tracks)) ticks_per_beat) \<and>
                    int (length result) =
                      py_round_div (4 * last_event_tick (sorted_events tracks)) ticks_per_beat)"
proof -
  have "0 \<le> py_round_div (4 * last_event_tick (sorted_events tracks)) ticks_per_beat"
    using last_event_tick_nonneg [OF assms(2)] assms(1) by (intro py_round_div_nonneg) simp_all
  then have count: "\<exists>result. get_sounding_notes_per_16th ticks_per_beat tracks =
                      Inr (result, py_round_div (4 * last_event_tick (sorted_events tracks)) ticks_per_beat) \<and>
                    int (length result) =
                      py_round_div (4 * last_event_tick (sorted_events tracks)) ticks_per_beat"
    using assms(1) by (simp add: get_sounding_notes_per_16th_def total_16ths_of_def Let_def)
  have sets: "(n \<in> active \<longrightarrow> apply_event active On n = active) \<and>
         (n \<notin> active \<longrightarrow> apply_event active Off n = active)"
    by (simp add: insert_absorb)
  have sw: "(n \<in> active \<and> t \<le> target_tick \<longrightarrow>
            sweep target_tick active ((On, t, n) # rest) = sweep target_tick active rest) \<and>
         (n \<notin> active \<and> t \<le> target_tick \<longrightarrow>
            sweep target_tick active ((Off, t, n) # rest) = sweep target_tick active rest)"
    by (simp add: insert_absorb)
  from sets sw count show ?thesis by blast
qed

theorem sampler_sets_and_count_witness:
  "0 < (4::int) \<and>
   apply_event {60} On 60 = {60} \<and>
   apply_event {60} Off 62 = {60} \<and>
   get_sounding_notes_per_16th 4
     [[NoteOn 0 60 64 0, NoteOn 0 60 64 1, NoteOff 0 62 0 0, NoteOff 0 60 0 2]] =
     Inr ([[60], [60], [60]], 3)"
proof -
  let ?tracks = "[[NoteOn 0 60 64 0, NoteOn 0 60 64 1, NoteOff 0 62 0 0, NoteOff 0 60 0 2]]"
  have h1: "0 < (4::int)" by simp
  have h2: "\<forall>track\<in>set ?tracks. \<forall>m\<in>set track. 0 \<le> time m" by simp
  have v: "get_sounding_notes_per_16th 4 ?tracks = Inr ([[60], [60], [60]], 3)"
    by code_simp
  from sampler_sets_and_count [OF h1 h2, of 60 "{60}" 1 1 "[]"]
  have a: "apply_event {60} On 60 = {60}" by simp
  from sampler_sets_and_count [OF h1 h2, of 62 "{60}" 1 1 "[]"]
  have b: "apply_event {60} Off 62 = {60}" by simp
  from h1 a b v show ?thesis by blast
qed

section \<open>Properties of the harmonic analysis report\<close>

lemma sounding_length:
  "get_sounding_notes_per_16th ticks_per_beat tracks = Inr (sounding_notes, total_16ths) \<Longrightarrow>
   length sounding_notes = nat total_16ths"
  by (auto simp: get_sounding_notes_per_16th_def Let_def split: if_splits)

lemma sounding_distinct:
  "get_sounding_notes_per_16th ticks_per_beat tracks = Inr (sounding_notes, total_16ths) \<Longrightarrow>
   \<forall>notes\<in>set sounding_notes. distinct notes"
  by (auto simp: get_sounding_notes_per_16th_def Let_def split: if_splits)

lemma report_loop_complete:
  "\<forall>tick\<in>set ticks. tick < length sounding_notes \<and>
                     fst (name_and_func naming (sounding_notes ! tick)) \<noteq> ''Rest'' \<Longrightarrow>
   report_loop naming sounding_notes rows ticks =
     (ReturnNone,
      Written (rows @ map (\<lambda>tick. (int tick, name_and_func naming (sounding_notes ! tick))) ticks))"
proof (induction ticks arbitrary: rows)
  case Nil
  show ?case by simp
next
  case (Cons tick ticks)
  then show ?case
    by (cases "name_and_func naming (sounding_notes ! tick)") simp
qed

text \<open>
  Claim C8 (polyphony gate). When the sampler has produced the per-subdivision note lists and
  one of them has fewer than 3 notes, \<open>save_harmonic_analysis\<close> returns \<^verbatim>\<open>False\<close> and the
  output file is never opened; hence whenever a report is written, every subdivision's list
  has at least 3 entries, and they are at least 3 different sounding pitches.
\<close>

theorem polyphony_gate:
  assumes "get_sounding_notes_per_16th ticks_per_beat tracks = Inr (sounding_notes, total_16ths)"
  shows "((\<exists>notes\<in>set sounding_notes. length notes < 3) \<longrightarrow>
            save_harmonic_analysis key_is_minor naming ticks_per_beat tracks =
              (ReturnFalse, Untouched)) \<and>
         (\<forall>r rows. save_harmonic_analysis key_is_minor naming ticks_per_beat tracks =
                     (r, Written rows) \<longrightarrow>
                   (\<forall>notes\<in>set sounding_notes. 3 \<le> length notes \<and> 3 \<le> card (set notes)))"
proof (intro conjI impI allI)
  assume "\<exists>notes\<in>set sounding_notes. length notes < 3"
  then have "list_ex (\<lambda>notes. length notes < 3) sounding_notes"
    by (simp add: list_ex_iff)
  with assms show "save_harmonic_analysis key_is_minor naming ticks_per_beat tracks =
              (ReturnFalse, Untouched)"
    by (simp add: save_harmonic_analysis_def)
next
  fix r rows
  assume w: "save_harmonic_analysis key_is_minor naming ticks_per_beat tracks = (r, Written rows)"
  have "\<forall>notes\<in>set sounding_notes. 3 \<le> length notes"
  proof (rule ccontr)
    assume "\<not> (\<forall>notes\<in>set sounding_notes. 3 \<le> length notes)"
    then have "list_ex (\<lambda>notes. length notes < 3) sounding_notes"
      by (auto simp: list_ex_iff not_le)
    with assms have "save_harmonic_analysis key_is_minor naming ticks_per_beat tracks =
              (ReturnFalse, Untouched)"
      by (simp add: save_harmonic_analysis_def)
    with w show False by simp
  qed
  with sounding_distinct [OF assms]
  show "\<forall>notes\<in>set sounding_notes. 3 \<le> length notes \<and> 3 \<le> card (set notes)"
    by (simp add: distinct_card)
qed

theorem polyphony_gate_witness:
  "get_sounding_notes_per_16th 4
     [[NoteOn 0 60 64 0, NoteOn 0 64 64 0, NoteOn 0 67 64 1,
       NoteOff 0 60 0 1, NoteOff 0 64 0 0, NoteOff 0 67 0 0]] =
     Inr ([[60, 64], [60, 64, 67]], 2) \<and>
   (\<exists>notes\<in>set [[60, 64], [60, 64, 67 :: int]]. length notes < 3) \<and>
   save_harmonic_analysis False (\<lambda>midi_notes. (''C-major triad'', ''I'')) 4
     [[NoteOn 0 60 64 0, NoteOn 0 64 64 0, NoteOn 0 67 64 1,
       NoteOff 0 60 0 1, NoteOff 0 64 0 0, NoteOff 0 67 0 0]] = (ReturnFalse, Untouched)"
proof -
  let ?tracks = "[[NoteOn 0 60 64 0, NoteOn 0 64 64 0, NoteOn 0 67 64 1,
       NoteOff 0 60 0 1, NoteOff 0 64 0 0, NoteOff 0 67 0 0]]"
  have s: "get_sounding_notes_per_16th 4 ?tracks = Inr ([[60, 64], [60, 64, 67]], 2)"
    by code_simp
  have e: "\<exists>notes\<in>set [[60, 64], [60, 64, 67 :: int]]. length notes < 3" by simp
  from polyphony_gate [OF s, of False "\<lambda>midi_notes. (''C-major triad'', ''I'')"] e
  have "save_harmonic_analysis False (\<lambda>midi_notes. (''C-major triad'', ''I'')) 4 ?tracks =
          (ReturnFalse, Untouched)"
    by blast
  with s e show ?thesis by blast
qed

text \<open>
  Claim C9 (the Rest branch). For a major-key MIDI file that passes the polyphony gate, the
  initial \<^verbatim>\<open>chord_name = "Rest"\<close> is overwritten at every subdivision by the name music21
  gives to the sounding notes. So, music21 never naming a non-empty chord \<^verbatim>\<open>"Rest"\<close>, the
  branch that removes the file is not taken: the call writes one row per subdivision and
  keeps the report.
\<close>

theorem rest_branch_unreachable:
  assumes "get_sounding_notes_per_16th ticks_per_beat tracks = Inr (sounding_notes, total_16ths)"
    and "\<forall>notes\<in>set sounding_notes. 3 \<le> length notes"
    and "\<not> key_is_minor"
  shows "(\<forall>tick<length sounding_notes.
            name_and_func naming (sounding_notes ! tick) = naming (sounding_notes ! tick)) \<and>
         ((\<forall>midi_notes. midi_notes \<noteq> [] \<longrightarrow> fst (naming midi_notes) \<noteq> ''Rest'') \<longrightarrow>
            save_harmonic_analysis key_is_minor naming ticks_per_beat tracks =
              (ReturnNone,
               Written (map (\<lambda>tick. (int tick, naming (sounding_notes ! tick)))
                          [0 ..< length sounding_notes])))"
proof (intro conjI impI)
  have ne: "sounding_notes ! tick \<noteq> []" if "tick < length sounding_notes" for tick
  proof -
    from that have "sounding_notes ! tick \<in> set sounding_notes" by simp
    with assms(2) have "3 \<le> length (sounding_notes ! tick)" by blast
    then show ?thesis by auto
  qed
  then show named: "\<forall>tick<length sounding_notes.
            name_and_func naming (sounding_notes ! tick) = naming (sounding_notes ! tick)"
    by (simp add: name_and_func_def)
  assume lib: "\<forall>midi_notes. midi_notes \<noteq> [] \<longrightarrow> fst (naming midi_notes) \<noteq> ''Rest''"
  have len: "length sounding_notes = nat total_16ths"
    using sounding_length [OF assms(1)] .
  have gate: "\<not> list_ex (\<lambda>notes. length notes < 3) sounding_notes"
    using assms(2) by (auto simp: list_ex_iff)
  have ok: "\<forall>tick\<in>set [0 ..< length sounding_notes]. tick < length sounding_notes \<and>
                     fst (name_and_func naming (sounding_notes ! tick)) \<noteq> ''Rest''"
    using named ne lib by simp
  have "save_harmonic_analysis key_is_minor naming ticks_per_beat tracks =
          report_loop naming sounding_notes [] [0 ..< length sounding_notes]"
    using assms(1,3) gate len by (simp add: save_harmonic_analysis_def)
  also have "\<dots> = (ReturnNone,
      Written ([] @ map (\<lambda>tick. (int tick, name_and_func naming (sounding_notes ! tick)))
                      [0 ..< length sounding_notes]))"
    using ok by (rule report_loop_complete)
  also have "map (\<lambda>tick. (int tick, name_and_func naming (sounding_notes ! tick)))
                      [0 ..< length sounding_notes] =
             map (\<lambda>tick. (int tick, naming (sounding_notes ! tick))) [0 ..< length sounding_notes]"
    using named by simp
  finally show "save_harmonic_analysis key_is_minor naming ticks_per_beat tracks =
              (ReturnNone,
               Written (map (\<lambda>tick. (int tick, naming (sounding_notes ! tick)))
                          [0 ..< length sounding_notes]))"
    by simp
qed

theorem rest_branch_unreachable_witness:
  "get_sounding_notes_per_16th 4
     [[NoteOn 0 60 64 0, NoteOn 0 64 64 0, NoteOn 0 67 64 0,
       NoteOff 0 60 0 2, NoteOff 0 64 0 0, NoteOff 0 67 0 0]] =
     Inr ([[60, 64, 67], [60, 64, 67]], 2) \<and>
   name_and_func (\<lambda>midi_notes. (''C-major triad'', ''I'')) [60, 64, 67] = (''C-major triad'', ''I'') \<and>
   save_harmonic_analysis False (\<lambda>midi_notes. (''C-major triad'', ''I'')) 4
     [[NoteOn 0 60 64 0, NoteOn 0 64 64 0, NoteOn 0 67 64 0,
       NoteOff 0 60 0 2, NoteOff 0 64 0 0, NoteOff 0 67 0 0]] =
     (ReturnNone, Written [(0, ''C-major triad'', ''I''), (1, ''C-major triad'', ''I'')])"
proof -
  let ?tracks = "[[NoteOn 0 60 64 0, NoteOn 0 64 64 0, NoteOn 0 67 64 0,
       NoteOff 0 60 0 2, NoteOff 0 64 0 0, NoteOff 0 67 0 0]]"
  let ?naming = "\<lambda>midi_notes :: int list. (''C-major triad'', ''I'')"
  have s: "get_sounding_notes_per_16th 4 ?tracks = Inr ([[60, 64, 67], [60, 64, 67]], 2)"
    by code_simp
  have g: "\<forall>notes\<in>set [[60, 64, 67], [60, 64, 67 :: int]]. 3 \<le> length notes" by simp
  have m: "\<not> False" by simp
  have l: "\<forall>midi_notes :: int list. midi_notes \<noteq> [] \<longrightarrow> fst (?naming midi_notes) \<noteq> ''Rest''"
    by simp
  have u: "[0 ..< length [[60, 64, 67], [60, 64, 67 :: int]]] = [0, 1]"
    by (simp add: upt_rec)
  from rest_branch_unreachable [OF s g m, of ?naming] l
  have "save_harmonic_analysis False ?naming 4 ?tracks =
          (ReturnNone, Written (map (\<lambda>tick. (int tick, ?naming ([[60, 64, 67], [60, 64, 67]] ! tick)))
                          [0 ..< length [[60, 64, 67], [60, 64, 67 :: int]]]))"
    by blast
  then have "save_harmonic_analysis False ?naming 4 ?tracks =
          (ReturnNone, Written [(0, ''C-major triad'', ''I''), (1, ''C-major triad'', ''I'')])"
    unfolding u by simp
  with s show ?thesis by (simp add: name_and_func_def)
qed

section \<open>Properties of the chord classifier\<close>

text \<open>
  The classifier examples of the specification, on the notes C4, E4, G4 and their
  variants, and a C major triad over the bass G.
\<close>

lemma spec_classifier_examples:
  "notes_to_chord {60, 64, 67} = Some ''C''"
  "notes_to_chord {60, 63, 67} = Some ''Cm''"
  "notes_to_chord {60, 63, 66} = Some ''Cdim''"
  "notes_to_chord {60, 64, 68} = Some ''Caug''"
  "notes_to_chord {60, 62, 67} = Some ''Csus2''"
  "notes_to_chord {55, 60, 64} = Some ''C/G''"
  by code_simp+

lemma card_pitch_classes_le: "finite notes \<Longrightarrow> card (pitch_classes notes) \<le> card notes"
  by (simp add: pitch_classes_def card_image_le)

lemma root_loop_no_match:
  "\<forall>r\<in>set rs. \<not> truthy (find_chord_type r pc) \<Longrightarrow> root_loop bass_pc pc rs = Some (NOTES ! nat bass_pc)"
  by (induction rs) (auto simp: truthy_def split: option.splits)

text \<open>
  Claim C1, as the code has it. A note set with more than 4 distinct pitch classes has more
  than 4 notes, and for more than 4 notes \<open>notes_to_chord\<close> returns \<^verbatim>\<open>None\<close>, which the
  report writers print as \<^verbatim>\<open>rest\<close>, exactly as for the empty set. The bare name of the
  bass pitch class is what a set of 1 to 4 notes gets when no candidate root matches a
  pattern.
\<close>

theorem more_than_four_notes_unlabelled:
  assumes "finite notes"
  shows "(4 < card (pitch_classes notes) \<longrightarrow>
            notes_to_chord notes = None \<and> or_rest (notes_to_chord notes) = ''rest'') \<and>
         (4 < card notes \<longrightarrow> notes_to_chord notes = None) \<and>
         notes_to_chord {} = None \<and> or_rest (notes_to_chord {}) = ''rest'' \<and>
         (notes \<noteq> {} \<and> card notes \<le> 4 \<and>
          (\<forall>r\<in>pitch_classes notes. \<not> truthy (find_chord_type r (pitch_classes notes))) \<longrightarrow>
            notes_to_chord notes = Some (NOTES ! nat (Min notes mod 12)))"
proof -
  have a: "4 < card (pitch_classes notes) \<longrightarrow>
            notes_to_chord notes = None \<and> or_rest (notes_to_chord notes) = ''rest''"
  proof
    assume "4 < card (pitch_classes notes)"
    with card_pitch_classes_le [OF assms] have "4 < card notes" by simp
    then show "notes_to_chord notes = None \<and> or_rest (notes_to_chord notes) = ''rest''"
      by (simp add: notes_to_chord_def or_rest_def)
  qed
  have b: "4 < card notes \<longrightarrow> notes_to_chord notes = None"
    by (simp add: notes_to_chord_def)
  have c: "notes_to_chord {} = None \<and> or_rest (notes_to_chord {}) = ''rest''"
    by (simp add: notes_to_chord_def or_rest_def)
  have d: "notes \<noteq> {} \<and> card notes \<le> 4 \<and>
          (\<forall>r\<in>pitch_classes notes. \<not> truthy (find_chord_type r (pitch_classes notes))) \<longrightarrow>
            notes_to_chord notes = Some (NOTES ! nat (Min notes mod 12))"
  proof
    assume h: "notes \<noteq> {} \<and> card notes \<le> 4 \<and>
          (\<forall>r\<in>pitch_classes notes. \<not> truthy (find_chord_type r (pitch_classes notes)))"
    have fin: "finite (pitch_classes notes)" using assms by (simp add: pitch_classes_def)
    have "\<forall>r\<in>set (sorted_list_of_set (pitch_classes notes)).
            \<not> truthy (find_chord_type r (pitch_classes notes))"
      using h fin by simp
    from root_loop_no_match [OF this] h
    show "notes_to_chord notes = Some (NOTES ! nat (Min notes mod 12))"
      by (simp add: notes_to_chord_def Let_def)
  qed
  from a b c d show ?thesis by blast
qed

theorem more_than_four_notes_unlabelled_witness:
  "finite {60, 61, 62, 63, 64 :: int} \<and> 4 < card (pitch_classes {60, 61, 62, 63, 64}) \<and>
   notes_to_chord {60, 61, 62, 63, 64} = None \<and>
   or_rest (notes_to_chord {60, 61, 62, 63, 64}) = ''rest'' \<and>
   finite {61, 62 :: int} \<and> {61, 62 :: int} \<noteq> {} \<and> card {61, 62 :: int} \<le> 4 \<and>
   \<not> truthy (find_chord_type 1 (pitch_classes {61, 62})) \<and>
   \<not> truthy (find_chord_type 2 (pitch_classes {61, 62})) \<and>
   notes_to_chord {61, 62} = Some ''C#''"
proof -
  have f5: "finite {60, 61, 62, 63, 64 :: int}" by simp
  have c5: "4 < card (pitch_classes {60, 61, 62, 63, 64})" by code_simp
  have f2: "finite {61, 62 :: int}" by simp
  have n2: "{61, 62 :: int} \<noteq> {}" by simp
  have c2: "card {61, 62 :: int} \<le> 4" by simp
  have pc: "pitch_classes {61, 62} = {1, 2}" by (simp add: pitch_classes_def)
  have t2: "\<forall>r\<in>pitch_classes {61, 62}. \<not> truthy (find_chord_type r (pitch_classes {61, 62}))"
    unfolding pc by code_simp
  have b: "NOTES ! nat (Min {61, 62} mod 12) = ''C#''" by code_simp
  from more_than_four_notes_unlabelled [OF f5] c5
  have r5: "notes_to_chord {60, 61, 62, 63, 64} = None \<and>
            or_rest (notes_to_chord {60, 61, 62, 63, 64}) = ''rest''"
    by blast
  from more_than_four_notes_unlabelled [OF f2] n2 c2 t2
  have "notes_to_chord {61, 62} = Some (NOTES ! nat (Min {61, 62} mod 12))"
    by blast
  then have r2: "notes_to_chord {61, 62} = Some ''C#''" unfolding b .
  have t2': "\<not> truthy (find_chord_type 1 (pitch_classes {61, 62})) \<and>
             \<not> truthy (find_chord_type 2 (pitch_classes {61, 62}))"
    using t2 unfolding pc by simp
  from f5 c5 r5 f2 n2 c2 t2' r2 show ?thesis by blast
qed

text \<open>
  Claim C1 as stated fails: the five notes C4 to E4 have five pitch classes and the bass
  pitch class C, but the classifier does not return the bass name \<^verbatim>\<open>C\<close> for them.
\<close>

theorem five_pitch_classes_counterexample:
  "4 < card (pitch_classes {60, 61, 62, 63, 64}) \<and>
   NOTES ! nat (Min {60, 61, 62, 63, 64} mod 12) = ''C'' \<and>
   notes_to_chord {60, 61, 62, 63, 64} \<noteq> Some (NOTES ! nat (Min {60, 61, 62, 63, 64} mod 12))"
  by code_simp

lemma sampled_notes_filter:
  "sampled_notes tick_to_ms (filter in_piano_range note_msgs) t = sampled_notes tick_to_ms note_msgs t"
proof -
  have "filter (\<lambda>msg. tick_to_ms (start' msg) \<le> t \<and> t < tick_to_ms (end' msg) \<and>
                       21 \<le> pitch msg \<and> pitch msg \<le> 108)
          (filter in_piano_range note_msgs) =
        filter (\<lambda>msg. tick_to_ms (start' msg) \<le> t \<and> t < tick_to_ms (end' msg) \<and>
                       21 \<le> pitch msg \<and> pitch msg \<le> 108) note_msgs"
    by (induction note_msgs) (auto simp: in_piano_range_def)
  then show ?thesis by (simp add: sampled_notes_def)
qed

lemma sampled_notes_drop:
  "\<not> in_piano_range extra \<Longrightarrow>
   sampled_notes tick_to_ms (before @ extra # after) t = sampled_notes tick_to_ms (before @ after) t"
  by (auto simp: sampled_notes_def in_piano_range_def)

text \<open>
  Claim C10 (pitch range of the standalone extraction). At every sample time the sampled
  note set is the one of the notes with pitch between 21 and 108 alone, all its members lie
  in that range, and so the chord label is the one these notes give: a note outside the
  range, wherever it stands among the note messages, changes neither the set nor the
  label. The whole list of labels is unchanged as well when the note does not end after
  every other note (the number of sample times is taken from the latest end of all notes).
\<close>

theorem out_of_range_pitches_ignored:
  "sampled_notes tick_to_ms note_msgs t =
     sampled_notes tick_to_ms (filter in_piano_range note_msgs) t \<and>
   (\<forall>p\<in>sampled_notes tick_to_ms note_msgs t. 21 \<le> p \<and> p \<le> 108) \<and>
   notes_to_chord (sampled_notes tick_to_ms note_msgs t) =
     notes_to_chord (sampled_notes tick_to_ms (filter in_piano_range note_msgs) t) \<and>
   (\<not> in_piano_range extra \<longrightarrow>
      notes_to_chord (sampled_notes tick_to_ms (before @ extra # after) t) =
        notes_to_chord (sampled_notes tick_to_ms (before @ after) t)) \<and>
   (\<not> in_piano_range extra \<and> before @ after \<noteq> [] \<and>
    tick_to_ms (end' extra) \<le> Max (set (map (\<lambda>msg. tick_to_ms (end' msg)) (before @ after))) \<longrightarrow>
      extract_chords tick_to_ms grid (before @ extra # after) =
        extract_chords tick_to_ms grid (before @ after))"
proof -
  have a: "sampled_notes tick_to_ms note_msgs t =
             sampled_notes tick_to_ms (filter in_piano_range note_msgs) t"
    by (simp add: sampled_notes_filter)
  have b: "\<forall>p\<in>sampled_notes tick_to_ms note_msgs t. 21 \<le> p \<and> p \<le> 108"
    by (auto simp: sampled_notes_def)
  have c: "notes_to_chord (sampled_notes tick_to_ms note_msgs t) =
     notes_to_chord (sampled_notes tick_to_ms (filter in_piano_range note_msgs) t)"
    by (simp add: sampled_notes_filter)
  have d: "\<not> in_piano_range extra \<longrightarrow>
      notes_to_chord (sampled_notes tick_to_ms (before @ extra # after) t) =
        notes_to_chord (sampled_notes tick_to_ms (before @ after) t)"
    by (simp add: sampled_notes_drop)
  have e: "\<not> in_piano_range extra \<and> before @ after \<noteq> [] \<and>
    tick_to_ms (end' extra) \<le> Max (set (map (\<lambda>msg. tick_to_ms (end' msg)) (before @ after))) \<longrightarrow>
      extract_chords tick_to_ms grid (before @ extra # after) =
        extract_chords tick_to_ms grid (before @ after)"
  proof
    assume h: "\<not> in_piano_range extra \<and> before @ after \<noteq> [] \<and>
      tick_to_ms (end' extra) \<le> Max (set (map (\<lambda>msg. tick_to_ms (end' msg)) (before @ after)))"
    let ?E = "set (map (\<lambda>msg. tick_to_ms (end' msg)) (before @ after))"
    have fin: "finite ?E" and ne: "?E \<noteq> {}" using h by auto
    have i: "set (map (\<lambda>msg. tick_to_ms (end' msg)) (before @ extra # after)) =
            insert (tick_to_ms (end' extra)) ?E"
      by auto
    have "Max (insert (tick_to_ms (end' extra)) ?E) = max (tick_to_ms (end' extra)) (Max ?E)"
      using fin ne by (rule Max_insert)
    then have "Max (set (map (\<lambda>msg. tick_to_ms (end' msg)) (before @ extra # after))) =
            max (tick_to_ms (end' extra)) (Max ?E)"
      unfolding i .
    also have "\<dots> = Max ?E" using h by (simp add: max_absorb2)
    finally have m: "Max (set (map (\<lambda>msg. tick_to_ms (end' msg)) (before @ extra # after))) = Max ?E" .
    have s: "sampled_notes tick_to_ms (before @ extra # after) = sampled_notes tick_to_ms (before @ after)"
      using h by (intro ext) (simp add: sampled_notes_drop)
    have l: "extract_chords tick_to_ms grid (before @ extra # after) =
          map (\<lambda>t. notes_to_chord (sampled_notes tick_to_ms (before @ extra # after) t))
            (grid (Max (set (map (\<lambda>msg. tick_to_ms (end' msg)) (before @ extra # after)))))"
      by (simp add: extract_chords_def Let_def)
    have r: "extract_chords tick_to_ms grid (before @ after) =
          map (\<lambda>t. notes_to_chord (sampled_notes tick_to_ms (before @ after) t)) (grid (Max ?E))"
    proof -
      from h have "before @ after \<noteq> []" by blast
      then show ?thesis by (simp only: extract_chords_def Let_def if_False)
    qed
    show "extract_chords tick_to_ms grid (before @ extra # after) =
        extract_chords tick_to_ms grid (before @ after)"
      unfolding l r m s ..
  qed
  from a b c d e show ?thesis by blast
qed

theorem out_of_range_pitches_ignored_witness:
  "\<not> in_piano_range \<lparr>pitch = 12, start' = 0, end' = 1\<rparr> \<and>
   [\<lparr>pitch = 60, start' = 0, end' = 2\<rparr>, \<lparr>pitch = 64, start' = 0, end' = 2\<rparr>] @
     [\<lparr>pitch = 67, start' = 0, end' = 2\<rparr>] \<noteq> [] \<and>
   sampled_notes (\<lambda>tick. tick)
          [\<lparr>pitch = 60, start' = 0, end' = 2\<rparr>, \<lparr>pitch = 64, start' = 0, end' = 2\<rparr>,
           \<lparr>pitch = 12, start' = 0, end' = 1\<rparr>, \<lparr>pitch = 67, start' = 0, end' = 2\<rparr>] 0 = {60, 64, 67} \<and>
   extract_chords (\<lambda>tick. tick) (\<lambda>max_ms. map int [0 ..< nat max_ms + 1])
          [\<lparr>pitch = 60, start' = 0, end' = 2\<rparr>, \<lparr>pitch = 64, start' = 0, end' = 2\<rparr>,
           \<lparr>pitch = 12, start' = 0, end' = 1\<rparr>, \<lparr>pitch = 67, start' = 0, end' = 2\<rparr>] =
     extract_chords (\<lambda>tick. tick) (\<lambda>max_ms. map int [0 ..< nat max_ms + 1])
          [\<lparr>pitch = 60, start' = 0, end' = 2\<rparr>, \<lparr>pitch = 64, start' = 0, end' = 2\<rparr>,
           \<lparr>pitch = 67, start' = 0, end' = 2\<rparr>]"
proof -
  let ?before = "[\<lparr>pitch = 60, start' = 0, end' = 2\<rparr>, \<lparr>pitch = 64, start' = 0, end' = 2\<rparr>]"
  let ?after = "[\<lparr>pitch = 67, start' = 0, end' = 2\<rparr>]"
  let ?extra = "\<lparr>pitch = 12, start' = 0, end' = 1\<rparr>"
  let ?ttm = "\<lambda>tick :: int. tick"
  let ?grid = "\<lambda>max_ms :: int. map int [0 ..< nat max_ms + 1]"
  have h1: "\<not> in_piano_range ?extra" by (simp add: in_piano_range_def)
  have h2: "?before @ ?after \<noteq> []" by simp
  have h3: "?ttm (end' ?extra) \<le> Max (set (map (\<lambda>msg. ?ttm (end' msg)) (?before @ ?after)))"
    by simp
  have v: "sampled_notes ?ttm (?before @ ?extra # ?after) 0 = {60, 64, 67}"
    by (auto simp: sampled_notes_def)
  note T = out_of_range_pitches_ignored
    [of ?ttm "?before @ ?extra # ?after" 0 ?extra ?before ?after ?grid]
  from T have r: "\<forall>p\<in>sampled_notes ?ttm (?before @ ?extra # ?after) 0. 21 \<le> p \<and> p \<le> 108"
    by blast
  from T h1 h2 h3
  have e: "extract_chords ?ttm ?grid (?before @ ?extra # ?after) =
           extract_chords ?ttm ?grid (?before @ ?after)"
    by blast
  from h1 h2 v e show ?thesis by simp
qed

section \<open>Properties of the cadence detector\<close>

subsection \<open>Run-length compression\<close>

lemma expand_events_append:
  "expand_events (xs @ ys) = expand_events xs @ expand_events ys"
  by (simp add: expand_events_def)

lemma expand_events_single:
  "expand_events [e] = replicate (nat (duration e)) (function' e)"
  by (simp add: expand_events_def)

lemma compress_loop_expand:
  "consecutive_from t rest \<Longrightarrow> start \<le> t \<Longrightarrow>
   (case compress_loop events cur start rest of
      (ev, c, s) \<Rightarrow>
        expand_events (ev @ [\<lparr>function' = c, start_tick = s,
                               duration = (t + int (length rest) - 1) - s + 1\<rparr>]))
   = expand_events events @ replicate (nat (t - start)) cur @ map func rest"
proof (induction rest arbitrary: events cur start t)
  case Nil
  then show ?case
    by (simp add: expand_events_append expand_events_single)
next
  case (Cons s rest)
  from Cons.prems have ts: "tick s = t" and cons: "consecutive_from (t + 1) rest"
    by simp_all
  show ?case
  proof (cases "func s = cur")
    case True
    have le: "start \<le> t + 1" using Cons.prems(2) by simp
    have n: "nat (t + 1 - start) = Suc (nat (t - start))"
      using Cons.prems(2) by simp
    have "replicate (nat (t + 1 - start)) cur = replicate (nat (t - start)) cur @ [cur]"
      unfolding n by (simp add: replicate_append_same)
    with Cons.IH [OF cons le, of events cur] True show ?thesis
      by (simp add: add.commute add.left_commute)
  next
    case False
    have le: "t \<le> t + 1" by simp
    from Cons.IH [OF cons le,
        of "events @ [\<lparr>function' = cur, start_tick = start, duration = t - start\<rparr>]" "func s"]
      False ts
    show ?thesis
      by (simp add: expand_events_append expand_events_single add.commute add.left_commute)
  qed
qed

lemma consecutive_last:
  "consecutive_from t xs \<Longrightarrow> xs \<noteq> [] \<Longrightarrow> tick (last xs) = t + int (length xs) - 1"
  by (induction xs arbitrary: t) (auto split: if_splits)

text \<open>
  Claim C6 (run-length compression round trip). For a label timeline sampled at consecutive
  subdivision ticks, compressing it with \<open>get_chord_events\<close> and expanding every run
  into \<open>duration\<close> many copies of its label gives back the per-subdivision label
  timeline; and the final run's duration is \<open>last_tick - start_tick + 1\<close>.
\<close>

theorem run_length_round_trip:
  "consecutive_from t0 timeline \<Longrightarrow>
   expand_events (get_chord_events timeline) = map func timeline \<and>
   (timeline \<noteq> [] \<longrightarrow>
      duration (last (get_chord_events timeline)) =
        tick (last timeline) - start_tick (last (get_chord_events timeline)) + 1)"
proof (cases timeline)
  case Nil
  then show ?thesis by (simp add: get_chord_events_def expand_events_def)
next
  case (Cons s rest)
  assume c: "consecutive_from t0 timeline"
  with Cons have t0: "tick s = t0" by simp
  have ne: "timeline \<noteq> []" using Cons by simp
  obtain ev cf st where loop: "compress_loop [] (func s) t0 timeline = (ev, cf, st)"
    by (cases "compress_loop [] (func s) t0 timeline") auto
  have lastt: "tick (last timeline) = t0 + int (length timeline) - 1"
    using consecutive_last [OF c ne] .
  from compress_loop_expand [OF c, of t0 "[]" "func s"] loop
  have "expand_events (ev @ [\<lparr>function' = cf, start_tick = st,
            duration = (t0 + int (length timeline) - 1) - st + 1\<rparr>]) = map func timeline"
    by (simp add: expand_events_def)
  with loop lastt ne Cons t0 show ?thesis
    by (simp add: get_chord_events_def)
qed

theorem run_length_round_trip_witness:
  "consecutive_from 0 [\<lparr>tick = 0, func = ''V''\<rparr>, \<lparr>tick = 1, func = ''V''\<rparr>, \<lparr>tick = 2, func = ''I''\<rparr>] \<and>
   expand_events (get_chord_events [\<lparr>tick = 0, func = ''V''\<rparr>, \<lparr>tick = 1, func = ''V''\<rparr>, \<lparr>tick = 2, func = ''I''\<rparr>])
     = [''V'', ''V'', ''I'']"
  using run_length_round_trip [of 0 "[\<lparr>tick = 0, func = ''V''\<rparr>, \<lparr>tick = 1, func = ''V''\<rparr>, \<lparr>tick = 2, func = ''I''\<rparr>]"]
  by simp

subsection \<open>Cadence classification of adjacent runs\<close>

lemma adjacent_pairs_split:
  "zip (xs @ p # c # ys) (tl (xs @ p # c # ys)) =
   zip (xs @ [p]) (tl (xs @ [p])) @ (p, c) # zip (c # ys) ys"
proof (induction xs)
  case Nil
  show ?case by simp
next
  case (Cons x xs)
  then show ?case by (cases xs) simp_all
qed

lemma cadence_step_acc:
  "cadence_step acc pr =
   (fst acc @ fst (cadence_step ([], []) pr), snd acc @ snd (cadence_step ([], []) pr))"
  by (simp add: cadence_step_def split: prod.splits)

lemma foldl_cadence_step_acc:
  "foldl cadence_step acc ps =
   (fst acc @ fst (foldl cadence_step ([], []) ps),
    snd acc @ snd (foldl cadence_step ([], []) ps))"
proof (induction ps rule: rev_induct)
  case Nil
  show ?case by simp
next
  case (snoc pr ps)
  let ?e = "([], []) :: int list \<times> int list"
  have l: "foldl cadence_step acc (ps @ [pr]) =
      (fst (foldl cadence_step acc ps) @ fst (cadence_step ?e pr),
       snd (foldl cadence_step acc ps) @ snd (cadence_step ?e pr))"
    using cadence_step_acc [of "foldl cadence_step acc ps" pr] by simp
  have r: "foldl cadence_step ?e (ps @ [pr]) =
      (fst (foldl cadence_step ?e ps) @ fst (cadence_step ?e pr),
       snd (foldl cadence_step ?e ps) @ snd (cadence_step ?e pr))"
    using cadence_step_acc [of "foldl cadence_step ?e ps" pr] by simp
  have i1: "fst (foldl cadence_step acc ps) = fst acc @ fst (foldl cadence_step ?e ps)"
    and i2: "snd (foldl cadence_step acc ps) = snd acc @ snd (foldl cadence_step ?e ps)"
    using snoc.IH by (metis fst_conv, metis snd_conv)
  show ?case
    unfolding l r i1 i2 by simp
qed

lemma scan_cadences_split:
  "scan_cadences (xs @ p # c # ys) =
   (fst (scan_cadences (xs @ [p])) @ fst (cadence_step ([], []) (p, c)) @ fst (scan_cadences (c # ys)),
    snd (scan_cadences (xs @ [p])) @ snd (cadence_step ([], []) (p, c)) @ snd (scan_cadences (c # ys)))"
proof -
  let ?A = "foldl cadence_step ([], []) (zip (xs @ [p]) (tl (xs @ [p])))"
  let ?B = "cadence_step ?A (p, c)"
  have B: "?B = (fst ?A @ fst (cadence_step ([], []) (p, c)), snd ?A @ snd (cadence_step ([], []) (p, c)))"
    by (simp add: cadence_step_def split: prod.splits)
  have "scan_cadences (xs @ p # c # ys) = foldl cadence_step ?B (zip (c # ys) ys)"
    by (simp add: scan_cadences_def adjacent_pairs_split)
  also have "\<dots> = (fst ?B @ fst (foldl cadence_step ([], []) (zip (c # ys) ys)),
                     snd ?B @ snd (foldl cadence_step ([], []) (zip (c # ys) ys)))"
    by (rule foldl_cadence_step_acc)
  finally show ?thesis
    by (simp add: B scan_cadences_def)
qed

text \<open>
  Claim C3 (cadence rule boundary). Take any adjacent pair of runs, anywhere in the run
  sequence, whose labels pass the dominant and tonic tests and whose second run starts on
  a tick divisible by 4. If the dominant lasts at least 2 subdivisions (in particular
  exactly 2) and the tonic at least 8 (in particular exactly 8), the pair adds exactly one
  Strong cadence at the tonic's start tick; with a tonic duration in \<open>[2, 8)\<close> (in
  particular 7) it adds exactly one Regular cadence; with a dominant duration below 2 (in
  particular 1) it adds nothing to either list.
\<close>

theorem cadence_rule_boundary:
  assumes "is_dominant (function' prev_event)"
    and "is_tonic (function' curr_event)"
    and "start_tick curr_event mod 4 = 0"
  shows "(2 \<le> duration prev_event \<and> 8 \<le> duration curr_event \<longrightarrow>
            scan_cadences (before @ prev_event # curr_event # after) =
              (fst (scan_cadences (before @ [prev_event])) @ [start_tick curr_event]
                 @ fst (scan_cadences (curr_event # after)),
               snd (scan_cadences (before @ [prev_event]))
                 @ snd (scan_cadences (curr_event # after)))) \<and>
         (2 \<le> duration prev_event \<and> 2 \<le> duration curr_event \<and> duration curr_event < 8 \<longrightarrow>
            scan_cadences (before @ prev_event # curr_event # after) =
              (fst (scan_cadences (before @ [prev_event]))
                 @ fst (scan_cadences (curr_event # after)),
               snd (scan_cadences (before @ [prev_event])) @ [start_tick curr_event]
                 @ snd (scan_cadences (curr_event # after)))) \<and>
         (duration prev_event < 2 \<longrightarrow>
            scan_cadences (before @ prev_event # curr_event # after) =
              (fst (scan_cadences (before @ [prev_event]))
                 @ fst (scan_cadences (curr_event # after)),
               snd (scan_cadences (before @ [prev_event]))
                 @ snd (scan_cadences (curr_event # after))))"
  using assms
  by (simp add: scan_cadences_split cadence_step_def is_perfect_cadence_def)

theorem cadence_rule_boundary_witness:
  "is_dominant ''V'' \<and> is_tonic ''I'' \<and> (4::int) mod 4 = 0 \<and>
   scan_cadences [\<lparr>function' = ''V'', start_tick = 2, duration = 2\<rparr>,
                  \<lparr>function' = ''I'', start_tick = 4, duration = 8\<rparr>] = ([4], []) \<and>
   scan_cadences [\<lparr>function' = ''V'', start_tick = 2, duration = 2\<rparr>,
                  \<lparr>function' = ''I'', start_tick = 4, duration = 7\<rparr>] = ([], [4]) \<and>
   scan_cadences [\<lparr>function' = ''V'', start_tick = 3, duration = 1\<rparr>,
                  \<lparr>function' = ''I'', start_tick = 4, duration = 8\<rparr>] = ([], [])"
proof -
  have d: "is_dominant ''V''" by (simp add: is_dominant_def startswith_def)
  have t: "is_tonic ''I''" by (simp add: is_tonic_def startswith_def)
  have b: "(4::int) mod 4 = 0" by simp
  have e: "scan_cadences [e] = ([], [])" for e by (simp add: scan_cadences_def)
  show ?thesis
    using d t b e
      cadence_rule_boundary [of "\<lparr>function' = ''V'', start_tick = 2, duration = 2\<rparr>"
        "\<lparr>function' = ''I'', start_tick = 4, duration = 8\<rparr>" "[]" "[]"]
      cadence_rule_boundary [of "\<lparr>function' = ''V'', start_tick = 2, duration = 2\<rparr>"
        "\<lparr>function' = ''I'', start_tick = 4, duration = 7\<rparr>" "[]" "[]"]
      cadence_rule_boundary [of "\<lparr>function' = ''V'', start_tick = 3, duration = 1\<rparr>"
        "\<lparr>function' = ''I'', start_tick = 4, duration = 8\<rparr>" "[]" "[]"]
    by simp
qed

text \<open>
  The scenario of the specification: the labels \<open>V\<close> at ticks 0 to 3 and \<open>I\<close> at ticks 4
  to 11 give one Strong cadence at tick 4.
\<close>

lemma spec_scenario_strong_cadence:
  "find_cadences (map (\<lambda>i. \<lparr>tick = int i, func = (if i < 4 then ''V'' else ''I'')\<rparr>) [0 ..< 12]) = ([4], [])"
  by code_simp

section \<open>Properties of the window extractor\<close>

lemma with_abs_lower:
  "\<forall>m\<in>set rest. 0 \<le> time m \<Longrightarrow> \<forall>x\<in>set (with_abs current_time rest). current_time \<le> snd x"
proof (induction rest arbitrary: current_time)
  case Nil
  show ?case by simp
next
  case (Cons m rest)
  have r: "\<forall>m\<in>set rest. 0 \<le> time m" using Cons.prems by simp
  have t: "0 \<le> time m" using Cons.prems by simp
  from Cons.IH [OF r, of "current_time + time m"] t show ?case
    by auto
qed

lemma closing_offs_synthesized:
  "\<forall>m\<in>set (closing_offs remaining_delta active). \<exists>ch n d. m = NoteOff ch n 0 d"
  by (cases "(remaining_delta, active)" rule: closing_offs.cases) auto

lemma dict_set_keys: "fst ` set (dict_set d k v) = insert k (fst ` set d)"
  by (induction d k v rule: dict_set.induct) auto

lemma dict_set_distinct: "distinct (map fst d) \<Longrightarrow> distinct (map fst (dict_set d k v))"
proof (induction d k v rule: dict_set.induct)
  case (1 k v)
  show ?case by simp
next
  case (2 k' v' rest k v)
  then show ?case using dict_set_keys [of rest k v] by (auto simp: image_iff)
qed

lemma dict_del_keys: "fst ` set (dict_del d k) = fst ` set d - {k}"
  by (auto simp: dict_del_def)

lemma dict_del_distinct: "distinct (map fst d) \<Longrightarrow> distinct (map fst (dict_del d k))"
  by (simp add: dict_del_def distinct_map_filter)

lemma track_active_keys:
  "fst ` set (track_active active m) =
     (if is_on m then insert (msg_key m) (fst ` set active)
      else if is_off m then fst ` set active - {msg_key m}
      else fst ` set active)"
  by (simp add: track_active_def msg_key_def dict_set_keys dict_del_keys)

lemma track_active_distinct:
  "distinct (map fst active) \<Longrightarrow> distinct (map fst (track_active active m))"
  by (simp add: track_active_def dict_set_distinct dict_del_distinct)

lemma closing_offs_keys: "map msg_key (closing_offs remaining_delta active) = map fst active"
  by (cases "(remaining_delta, active)" rule: closing_offs.cases) (simp_all add: msg_key_def)

lemma closing_offs_times:
  "(closing_offs remaining_delta active \<noteq> [] \<longrightarrow>
      time (hd (closing_offs remaining_delta active)) = remaining_delta) \<and>
   (\<forall>m\<in>set (tl (closing_offs remaining_delta active)). time m = 0)"
  by (cases "(remaining_delta, active)" rule: closing_offs.cases) auto

lemma cut_loop_closing:
  "\<forall>m\<in>set rest. 0 \<le> time m \<Longrightarrow> distinct (map fst active) \<Longrightarrow>
   \<exists>closing.
     cut_loop cut_tick current_time new_track active rest =
       new_track @ map fst (filter (kept_at_cut cut_tick) (with_abs current_time rest)) @ closing \<and>
     (\<forall>m\<in>set closing. \<exists>ch n d. m = NoteOff ch n 0 d) \<and>
     distinct (map msg_key closing) \<and>
     set (map msg_key closing) =
       (if \<exists>x\<in>set (with_abs current_time rest). cut_tick < snd x
        then sounding_keys (fst ` set active)
               (map fst (filter (kept_at_cut cut_tick) (with_abs current_time rest)))
        else {}) \<and>
     (closing \<noteq> [] \<longrightarrow>
        time (hd closing) =
          cut_tick - (current_time +
            total_time (map fst (filter (\<lambda>x. snd x \<le> cut_tick) (with_abs current_time rest))))) \<and>
     (\<forall>m\<in>set (tl closing). time m = 0)"
proof (induction rest arbitrary: current_time new_track active)
  case Nil
  show ?case by simp
next
  case (Cons m rest)
  let ?t = "current_time + time m"
  let ?kept = "\<lambda>c r. map fst (filter (kept_at_cut cut_tick) (with_abs c r))"
  let ?done = "\<lambda>c r. total_time (map fst (filter (\<lambda>x. snd x \<le> cut_tick) (with_abs c r)))"
  let ?later = "\<lambda>c r. \<exists>x\<in>set (with_abs c r). cut_tick < snd x"
  have r: "\<forall>m\<in>set rest. 0 \<le> time m" using Cons.prems(1) by simp
  consider (before) "?t < cut_tick" | (at_on) "?t = cut_tick" "is_on m"
    | (at_keep) "?t = cut_tick" "\<not> is_on m" | (after) "cut_tick < ?t"
    by fastforce
  then show ?case
  proof cases
    case before
    let ?a = "track_active active m"
    have d: "distinct (map fst ?a)"
      using Cons.prems(2) by (rule track_active_distinct)
    have L: "cut_loop cut_tick current_time new_track active (m # rest) =
               cut_loop cut_tick ?t (new_track @ [m]) ?a rest"
      using before by simp
    have K: "?kept current_time (m # rest) = m # ?kept ?t rest"
      using before by (simp add: kept_at_cut_def)
    have P: "?done current_time (m # rest) = time m + ?done ?t rest"
      using before by (simp add: total_time_def)
    have A: "?later current_time (m # rest) = ?later ?t rest"
      using before by simp
    have S: "sounding_keys (fst ` set active) (m # ?kept ?t rest) =
               sounding_keys (fst ` set ?a) (?kept ?t rest)"
      by (simp add: track_active_keys)
    from Cons.IH [OF r d, of ?t "new_track @ [m]"]
    obtain closing where
      c: "cut_loop cut_tick ?t (new_track @ [m]) ?a rest = (new_track @ [m]) @ ?kept ?t rest @ closing \<and>
          (\<forall>m\<in>set closing. \<exists>ch n d. m = NoteOff ch n 0 d) \<and>
          distinct (map msg_key closing) \<and>
          set (map msg_key closing) =
            (if ?later ?t rest then sounding_keys (fst ` set ?a) (?kept ?t rest) else {}) \<and>
          (closing \<noteq> [] \<longrightarrow> time (hd closing) = cut_tick - (?t + ?done ?t rest)) \<and>
          (\<forall>m\<in>set (tl closing). time m = 0)"
      ..
    note c1 = c [THEN conjunct1]
      and c2 = c [THEN conjunct2, THEN conjunct1]
      and c3 = c [THEN conjunct2, THEN conjunct2, THEN conjunct1]
      and c4 = c [THEN conjunct2, THEN conjunct2, THEN conjunct2, THEN conjunct1]
      and c5 = c [THEN conjunct2, THEN conjunct2, THEN conjunct2, THEN conjunct2, THEN conjunct1]
      and c6 = c [THEN conjunct2, THEN conjunct2, THEN conjunct2, THEN conjunct2, THEN conjunct2]
    show ?thesis
    proof (intro exI [of _ closing] conjI)
      show "cut_loop cut_tick current_time new_track active (m # rest) =
              new_track @ ?kept current_time (m # rest) @ closing"
        unfolding L K c1 by simp
      show "\<forall>m\<in>set closing. \<exists>ch n d. m = NoteOff ch n 0 d" by (rule c2)
      show "distinct (map msg_key closing)" by (rule c3)
      show "set (map msg_key closing) =
              (if ?later current_time (m # rest)
               then sounding_keys (fst ` set active) (?kept current_time (m # rest)) else {})"
        unfolding A K S by (rule c4)
      show "closing \<noteq> [] \<longrightarrow>
              time (hd closing) = cut_tick - (current_time + ?done current_time (m # rest))"
        unfolding P using c5 by (simp add: add.assoc)
      show "\<forall>m\<in>set (tl closing). time m = 0" by (rule c6)
    qed
  next
    case at_on
    have d: "distinct (map fst active)" using Cons.prems(2) .
    have L: "cut_loop cut_tick current_time new_track active (m # rest) =
               cut_loop cut_tick ?t new_track active rest"
      using at_on by simp
    have K: "?kept current_time (m # rest) = ?kept ?t rest"
      using at_on by (simp add: kept_at_cut_def)
    have P: "?done current_time (m # rest) = time m + ?done ?t rest"
      using at_on by (simp add: total_time_def)
    have A: "?later current_time (m # rest) = ?later ?t rest"
      using at_on by simp
    from Cons.IH [OF r d, of ?t "new_track"]
    obtain closing where
      c: "cut_loop cut_tick ?t new_track active rest = new_track @ ?kept ?t rest @ closing \<and>
          (\<forall>m\<in>set closing. \<exists>ch n d. m = NoteOff ch n 0 d) \<and>
          distinct (map msg_key closing) \<and>
          set (map msg_key closing) =
            (if ?later ?t rest then sounding_keys (fst ` set active) (?kept ?t rest) else {}) \<and>
          (closing \<noteq> [] \<longrightarrow> time (hd closing) = cut_tick - (?t + ?done ?t rest)) \<and>
          (\<forall>m\<in>set (tl closing). time m = 0)"
      ..
    note c1 = c [THEN conjunct1]
      and c2 = c [THEN conjunct2, THEN conjunct1]
      and c3 = c [THEN conjunct2, THEN conjunct2, THEN conjunct1]
      and c4 = c [THEN conjunct2, THEN conjunct2, THEN conjunct2, THEN conjunct1]
      and c5 = c [THEN conjunct2, THEN conjunct2, THEN conjunct2, THEN conjunct2, THEN conjunct1]
      and c6 = c [THEN conjunct2, THEN conjunct2, THEN conjunct2, THEN conjunct2, THEN conjunct2]
    show ?thesis
    proof (intro exI [of _ closing] conjI)
      show "cut_loop cut_tick current_time new_track active (m # rest) =
              new_track @ ?kept current_time (m # rest) @ closing"
        unfolding L K c1 by simp
      show "\<forall>m\<in>set closing. \<exists>ch n d. m = NoteOff ch n 0 d" by (rule c2)
      show "distinct (map msg_key closing)" by (rule c3)
      show "set (map msg_key closing) =
              (if ?later current_time (m # rest)
               then sounding_keys (fst ` set active) (?kept current_time (m # rest)) else {})"
        unfolding A K  by (rule c4)
      show "closing \<noteq> [] \<longrightarrow>
              time (hd closing) = cut_tick - (current_time + ?done current_time (m # rest))"
        unfolding P using c5 by (simp add: add.assoc)
      show "\<forall>m\<in>set (tl closing). time m = 0" by (rule c6)
    qed
  next
    case at_keep
    let ?a = "if is_off m then dict_del active (channel m, note' m) else active"
    have d: "distinct (map fst ?a)"
      using Cons.prems(2) by (simp add: dict_del_distinct)
    have L: "cut_loop cut_tick current_time new_track active (m # rest) =
               cut_loop cut_tick ?t (new_track @ [m]) ?a rest"
      using at_keep by simp
    have K: "?kept current_time (m # rest) = m # ?kept ?t rest"
      using at_keep by (simp add: kept_at_cut_def)
    have P: "?done current_time (m # rest) = time m + ?done ?t rest"
      using at_keep by (simp add: total_time_def)
    have A: "?later current_time (m # rest) = ?later ?t rest"
      using at_keep by simp
    have S: "sounding_keys (fst ` set active) (m # ?kept ?t rest) =
               sounding_keys (fst ` set ?a) (?kept ?t rest)"
      using at_keep by (simp add: dict_del_keys msg_key_def)
    from Cons.IH [OF r d, of ?t "new_track @ [m]"]
    obtain closing where
      c: "cut_loop cut_tick ?t (new_track @ [m]) ?a rest = (new_track @ [m]) @ ?kept ?t rest @ closing \<and>
          (\<forall>m\<in>set closing. \<exists>ch n d. m = NoteOff ch n 0 d) \<and>
          distinct (map msg_key closing) \<and>
          set (map msg_key closing) =
            (if ?later ?t rest then sounding_keys (fst ` set ?a) (?kept ?t rest) else {}) \<and>
          (closing \<noteq> [] \<longrightarrow> time (hd closing) = cut_tick - (?t + ?done ?t rest)) \<and>
          (\<forall>m\<in>set (tl closing). time m = 0)"
      ..
    note c1 = c [THEN conjunct1]
      and c2 = c [THEN conjunct2, THEN conjunct1]
      and c3 = c [THEN conjunct2, THEN conjunct2, THEN conjunct1]
      and c4 = c [THEN conjunct2, THEN conjunct2, THEN conjunct2, THEN conjunct1]
      and c5 = c [THEN conjunct2, THEN conjunct2, THEN conjunct2, THEN conjunct2, THEN conjunct1]
      and c6 = c [THEN conjunct2, THEN conjunct2, THEN conjunct2, THEN conjunct2, THEN conjunct2]
    show ?thesis
    proof (intro exI [of _ closing] conjI)
      show "cut_loop cut_tick current_time new_track active (m # rest) =
              new_track @ ?kept current_time (m # rest) @ closing"
        unfolding L K c1 by simp
      show "\<forall>m\<in>set closing. \<exists>ch n d. m = NoteOff ch n 0 d" by (rule c2)
      show "distinct (map msg_key closing)" by (rule c3)
      show "set (map msg_key closing) =
              (if ?later current_time (m # rest)
               then sounding_keys (fst ` set active) (?kept current_time (m # rest)) else {})"
        unfolding A K S by (rule c4)
      show "closing \<noteq> [] \<longrightarrow>
              time (hd closing) = cut_tick - (current_time + ?done current_time (m # rest))"
        unfolding P using c5 by (simp add: add.assoc)
      show "\<forall>m\<in>set (tl closing). time m = 0" by (rule c6)
    qed
  next
    case after
    let ?c = "closing_offs (cut_tick - (?t - time m)) active"
    have low: "\<forall>x\<in>set (with_abs ?t rest). ?t \<le> snd x"
      using with_abs_lower [OF r, of ?t] .
    have "\<forall>x\<in>set (with_abs ?t rest). \<not> kept_at_cut cut_tick x"
      using low after by (auto simp: kept_at_cut_def)
    then have "filter (kept_at_cut cut_tick) (with_abs ?t rest) = []"
      by (simp add: filter_empty_conv)
    then have K: "?kept current_time (m # rest) = []"
      using after by (simp add: kept_at_cut_def)
    have "\<forall>x\<in>set (with_abs ?t rest). \<not> snd x \<le> cut_tick"
      using low after by auto
    then have "filter (\<lambda>x. snd x \<le> cut_tick) (with_abs ?t rest) = []"
      by (simp add: filter_empty_conv)
    then have P: "?done current_time (m # rest) = 0"
      using after by (simp add: total_time_def)
    have A: "?later current_time (m # rest)"
      using after by simp
    have L: "cut_loop cut_tick current_time new_track active (m # rest) = new_track @ ?c"
      using after by simp
    have keys: "set (map msg_key ?c) = fst ` set active"
      by (simp only: closing_offs_keys set_map)
    have dist: "distinct (map msg_key ?c)"
      using Cons.prems(2) by (simp only: closing_offs_keys)
    have tm: "?c \<noteq> [] \<longrightarrow> time (hd ?c) = cut_tick - (current_time + 0)"
      using closing_offs_times [of "cut_tick - (?t - time m)" active] by simp
    have tl: "\<forall>m\<in>set (tl ?c). time m = 0"
      using closing_offs_times [of "cut_tick - (?t - time m)" active] by blast
    show ?thesis
    proof (intro exI [of _ ?c] conjI)
      show "cut_loop cut_tick current_time new_track active (m # rest) =
              new_track @ ?kept current_time (m # rest) @ ?c"
        unfolding L K by simp
      show "\<forall>m\<in>set ?c. \<exists>ch n d. m = NoteOff ch n 0 d"
        by (rule closing_offs_synthesized)
      show "distinct (map msg_key ?c)" by (rule dist)
      show "set (map msg_key ?c) =
              (if ?later current_time (m # rest)
               then sounding_keys (fst ` set active) (?kept current_time (m # rest)) else {})"
        unfolding K using A keys by simp
      show "?c \<noteq> [] \<longrightarrow>
              time (hd ?c) = cut_tick - (current_time + ?done current_time (m # rest))"
        unfolding P by (rule tm)
      show "\<forall>m\<in>set (tl ?c). time m = 0" by (rule tl)
    qed
  qed
qed

lemma dict_del_other:
  "k' \<noteq> k \<Longrightarrow> map_of (dict_del d k) k' = map_of d k'"
  by (induction d) (auto simp: dict_del_def)

lemma total_time_append: "total_time (xs @ ys) = total_time xs + total_time ys"
  by (simp add: total_time_def)

lemma total_time_closing_offs:
  "active \<noteq> [] \<Longrightarrow> total_time (closing_offs remaining_delta active) = remaining_delta"
proof (cases "(remaining_delta, active)" rule: closing_offs.cases)
  case (1 d)
  assume "active \<noteq> []"
  with 1 show ?thesis by simp
next
  case (2 d ch n v rest)
  have "sum_list (map (time \<circ> (\<lambda>entry. NoteOff (fst (fst entry)) (snd (fst entry)) 0 0)) rest) = 0"
    by (induction rest) simp_all
  with 2 show ?thesis by (simp add: total_time_def)
qed

lemma cut_loop_total_time:
  "\<forall>m\<in>set rest. 0 \<le> time m \<Longrightarrow>
   total_time new_track = current_time \<Longrightarrow>
   \<forall>x\<in>set (with_abs current_time rest). snd x = cut_tick \<and> is_on (fst x) \<longrightarrow> time (fst x) = 0 \<Longrightarrow>
   \<exists>closing. cut_loop cut_tick current_time new_track active rest =
               new_track @ map fst (filter (kept_at_cut cut_tick) (with_abs current_time rest)) @ closing \<and>
             (closing \<noteq> [] \<longrightarrow>
                total_time (cut_loop cut_tick current_time new_track active rest) = cut_tick)"
proof (induction rest arbitrary: current_time new_track active)
  case Nil
  show ?case by simp
next
  case (Cons m rest)
  let ?t = "current_time + time m"
  have r: "\<forall>m\<in>set rest. 0 \<le> time m" using Cons.prems(1) by simp
  have z: "\<forall>x\<in>set (with_abs ?t rest). snd x = cut_tick \<and> is_on (fst x) \<longrightarrow> time (fst x) = 0"
    using Cons.prems(3) by simp
  have tm: "total_time (new_track @ [m]) = ?t"
    using Cons.prems(2) by (simp add: total_time_def)
  consider (before) "?t < cut_tick" | (at_on) "?t = cut_tick" "is_on m"
    | (at_keep) "?t = cut_tick" "\<not> is_on m" | (after) "cut_tick < ?t"
    by fastforce
  then show ?case
  proof cases
    case before
    from Cons.IH [OF r tm z, of "track_active active m"] before
    show ?thesis by (simp add: kept_at_cut_def)
  next
    case at_on
    have "time m = 0" using Cons.prems(3) at_on by simp
    then have tn: "total_time new_track = ?t" using Cons.prems(2) by simp
    from Cons.IH [OF r tn z, of active] at_on
    show ?thesis by (simp add: kept_at_cut_def)
  next
    case at_keep
    from Cons.IH [OF r tm z, of "if is_off m then dict_del active (channel m, note' m) else active"]
      at_keep
    show ?thesis by (simp add: kept_at_cut_def)
  next
    case after
    have "\<forall>x\<in>set (with_abs ?t rest). \<not> kept_at_cut cut_tick x"
      using with_abs_lower [OF r, of ?t] after by (auto simp: kept_at_cut_def)
    then have none: "filter (kept_at_cut cut_tick) (with_abs ?t rest) = []"
      by (simp add: filter_empty_conv)
    have hd: "\<not> kept_at_cut cut_tick (m, ?t)"
      using after by (simp add: kept_at_cut_def)
    have res: "cut_loop cut_tick current_time new_track active (m # rest) =
            new_track @ closing_offs (cut_tick - (?t - time m)) active"
      using after by simp
    have tot: "closing_offs (cut_tick - (?t - time m)) active \<noteq> [] \<longrightarrow>
               total_time (new_track @ closing_offs (cut_tick - (?t - time m)) active) = cut_tick"
    proof
      assume "closing_offs (cut_tick - (?t - time m)) active \<noteq> []"
      then have "active \<noteq> []" by auto
      from total_time_closing_offs [OF this, of "cut_tick - (?t - time m)"] Cons.prems(2)
      show "total_time (new_track @ closing_offs (cut_tick - (?t - time m)) active) = cut_tick"
        by (simp add: total_time_append)
    qed
    show ?thesis
      unfolding res using hd none tot
      by (intro exI [of _ "closing_offs (cut_tick - (?t - time m)) active"]) simp
  qed
qed

text \<open>
  When no On event that is dropped at the cut tick carries a delta time, the clock of the
  output track follows the clock of the input: if Offs are synthesized, the output track
  lasts exactly \<open>cut_tick\<close> ticks.
\<close>

lemma cut_track_total_time:
  assumes "\<forall>m\<in>set track. 0 \<le> time m"
    and "\<forall>x\<in>set (with_abs 0 track). snd x = cut_tick \<and> is_on (fst x) \<longrightarrow> time (fst x) = 0"
  shows "\<exists>closing. cut_track cut_tick track =
                     map fst (filter (kept_at_cut cut_tick) (with_abs 0 track)) @ closing @ [end_of_track] \<and>
                   (closing \<noteq> [] \<longrightarrow> total_time (cut_track cut_tick track) = cut_tick)"
proof -
  have "total_time [] = 0" by (simp add: total_time_def)
  from cut_loop_total_time [OF assms(1) this assms(2), of "[]"]
  show ?thesis
    by (auto simp: cut_track_def total_time_append) (simp add: total_time_def end_of_track_def)
qed

text \<open>
  Claim C4 (events at the cut tick). For a track with non-negative delta times, the output
  track consists of the messages whose absolute tick is before the cut, together with those
  exactly at the cut that are not On events (an On at the cut is dropped; an Off or any other
  message there is kept), in their order, followed only by synthesized \<^verbatim>\<open>note_off\<close> messages
  of velocity 0 and the end-of-track marker. The synthesized Offs are there only when a
  message after the cut is reached, one for each (channel, pitch) that is still sounding
  after the copied messages and for no other: a pitch whose Off is copied at the cut tick
  has left the tracker and gets no synthesized Off. The first synthesized Off carries the
  distance from the last message read up to the cut, the others the delta 0. At a message
  exactly at the cut the loop drops an On and leaves the tracker alone, keeps an Off and
  removes its (channel, pitch) from the tracker, whose other entries stay, and keeps any
  other message. For an On at tick 0 with its Off at tick 20, cutting at tick 10 gives the On
  and a synthesized Off at tick 10; cutting at tick 20 keeps both messages as they are.
\<close>

theorem cut_boundary_policy:
  assumes "\<forall>m\<in>set track. 0 \<le> time m"
  shows "(\<exists>closing.
            cut_track cut_tick track =
              map fst (filter (kept_at_cut cut_tick) (with_abs 0 track))
                @ closing @ [end_of_track] \<and>
            (\<forall>m\<in>set closing. \<exists>ch n d. m = NoteOff ch n 0 d) \<and>
            distinct (map msg_key closing) \<and>
            set (map msg_key closing) =
              (if \<exists>x\<in>set (with_abs 0 track). cut_tick < snd x
               then sounding_keys {} (map fst (filter (kept_at_cut cut_tick) (with_abs 0 track)))
               else {}) \<and>
            (closing \<noteq> [] \<longrightarrow>
               time (hd closing) =
                 cut_tick - total_time (map fst (filter (\<lambda>x. snd x \<le> cut_tick) (with_abs 0 track)))) \<and>
            (\<forall>m\<in>set (tl closing). time m = 0)) \<and>
         (current_time + time m = cut_tick \<and> is_on m \<longrightarrow>
            cut_loop cut_tick current_time new_track active (m # rest) =
              cut_loop cut_tick cut_tick new_track active rest) \<and>
         (current_time + time m = cut_tick \<and> is_off m \<longrightarrow>
            cut_loop cut_tick current_time new_track active (m # rest) =
              cut_loop cut_tick cut_tick (new_track @ [m]) (dict_del active (channel m, note' m)) rest \<and>
            fst ` set (dict_del active (channel m, note' m)) = fst ` set active - {(channel m, note' m)} \<and>
            map_of (dict_del active (channel m, note' m)) (channel m, note' m) = None \<and>
            (\<forall>k. k \<noteq> (channel m, note' m) \<longrightarrow>
                 map_of (dict_del active (channel m, note' m)) k = map_of active k)) \<and>
         (current_time + time m = cut_tick \<and> \<not> is_on m \<and> \<not> is_off m \<longrightarrow>
            cut_loop cut_tick current_time new_track active (m # rest) =
              cut_loop cut_tick cut_tick (new_track @ [m]) active rest) \<and>
         cut_track 10 [NoteOn 0 60 64 0, NoteOff 0 60 64 20] =
           [NoteOn 0 60 64 0, NoteOff 0 60 0 10, end_of_track] \<and>
         cut_track 20 [NoteOn 0 60 64 0, NoteOff 0 60 64 20] =
           [NoteOn 0 60 64 0, NoteOff 0 60 64 20, end_of_track]"
proof -
  have d: "distinct (map fst ([] :: active_notes))" by simp
  from cut_loop_closing [OF assms d, of cut_tick 0 "[]"]
  obtain closing where
    c: "cut_loop cut_tick 0 [] [] track =
          [] @ map fst (filter (kept_at_cut cut_tick) (with_abs 0 track)) @ closing \<and>
        (\<forall>m\<in>set closing. \<exists>ch n d. m = NoteOff ch n 0 d) \<and>
        distinct (map msg_key closing) \<and>
        set (map msg_key closing) =
          (if \<exists>x\<in>set (with_abs 0 track). cut_tick < snd x
           then sounding_keys (fst ` set ([] :: active_notes))
                  (map fst (filter (kept_at_cut cut_tick) (with_abs 0 track)))
           else {}) \<and>
        (closing \<noteq> [] \<longrightarrow>
           time (hd closing) =
             cut_tick - (0 + total_time (map fst (filter (\<lambda>x. snd x \<le> cut_tick) (with_abs 0 track))))) \<and>
        (\<forall>m\<in>set (tl closing). time m = 0)"
    ..
  have shape: "\<exists>closing.
            cut_track cut_tick track =
              map fst (filter (kept_at_cut cut_tick) (with_abs 0 track))
                @ closing @ [end_of_track] \<and>
            (\<forall>m\<in>set closing. \<exists>ch n d. m = NoteOff ch n 0 d) \<and>
            distinct (map msg_key closing) \<and>
            set (map msg_key closing) =
              (if \<exists>x\<in>set (with_abs 0 track). cut_tick < snd x
               then sounding_keys {} (map fst (filter (kept_at_cut cut_tick) (with_abs 0 track)))
               else {}) \<and>
            (closing \<noteq> [] \<longrightarrow>
               time (hd closing) =
                 cut_tick - total_time (map fst (filter (\<lambda>x. snd x \<le> cut_tick) (with_abs 0 track)))) \<and>
            (\<forall>m\<in>set (tl closing). time m = 0)"
    using c by (intro exI [of _ closing]) (simp add: cut_track_def)
  have on: "current_time + time m = cut_tick \<and> is_on m \<longrightarrow>
            cut_loop cut_tick current_time new_track active (m # rest) =
              cut_loop cut_tick cut_tick new_track active rest"
    by simp
  have off_step: "current_time + time m = cut_tick \<and> is_off m \<longrightarrow>
            cut_loop cut_tick current_time new_track active (m # rest) =
              cut_loop cut_tick cut_tick (new_track @ [m]) (dict_del active (channel m, note' m)) rest"
    by (cases m) (auto simp: is_on_def is_off_def)
  have gone: "map_of (dict_del active (channel m, note' m)) (channel m, note' m) = None"
    using dict_del_keys [of active "(channel m, note' m)"]
    by (simp add: map_of_eq_None_iff)
  have off: "current_time + time m = cut_tick \<and> is_off m \<longrightarrow>
            cut_loop cut_tick current_time new_track active (m # rest) =
              cut_loop cut_tick cut_tick (new_track @ [m]) (dict_del active (channel m, note' m)) rest \<and>
            fst ` set (dict_del active (channel m, note' m)) = fst ` set active - {(channel m, note' m)} \<and>
            map_of (dict_del active (channel m, note' m)) (channel m, note' m) = None \<and>
            (\<forall>k. k \<noteq> (channel m, note' m) \<longrightarrow>
                 map_of (dict_del active (channel m, note' m)) k = map_of active k)"
    using off_step gone dict_del_keys [of active "(channel m, note' m)"]
      dict_del_other [of _ "(channel m, note' m)" active]
    by blast
  have other: "current_time + time m = cut_tick \<and> \<not> is_on m \<and> \<not> is_off m \<longrightarrow>
            cut_loop cut_tick current_time new_track active (m # rest) =
              cut_loop cut_tick cut_tick (new_track @ [m]) active rest"
    by simp
  have ex1: "cut_track 10 [NoteOn 0 60 64 0, NoteOff 0 60 64 20] =
           [NoteOn 0 60 64 0, NoteOff 0 60 0 10, end_of_track]"
    by (simp add: cut_track_def track_active_def is_on_def is_off_def)
  have ex2: "cut_track 20 [NoteOn 0 60 64 0, NoteOff 0 60 64 20] =
           [NoteOn 0 60 64 0, NoteOff 0 60 64 20, end_of_track]"
    by (simp add: cut_track_def track_active_def is_on_def is_off_def dict_del_def)
  from shape on off other ex1 ex2 show ?thesis by (intro conjI)
qed

theorem cut_boundary_policy_witness:
  "cut_track 10 [NoteOn 0 60 64 0, NoteOff 0 60 64 10, NoteOn 0 62 64 0, OtherMsg ''set_tempo'' 0,
                 NoteOff 0 62 0 5] =
     [NoteOn 0 60 64 0, NoteOff 0 60 64 10, OtherMsg ''set_tempo'' 0, end_of_track] \<and>
   (\<exists>closing.
      cut_track 10 [NoteOn 0 60 64 0, NoteOn 0 64 64 0, NoteOff 0 60 64 10, NoteOn 0 62 64 0,
                    NoteOff 0 62 0 5] =
        [NoteOn 0 60 64 0, NoteOn 0 64 64 0, NoteOff 0 60 64 10] @ closing @ [end_of_track] \<and>
      set (map msg_key closing) = {(0, 64)} \<and> time (hd closing) = 0)"
proof -
  let ?track = "[NoteOn 0 60 64 0, NoteOff 0 60 64 10, NoteOn 0 62 64 0, OtherMsg ''set_tempo'' 0,
                 NoteOff 0 62 0 5]"
  let ?held = "[NoteOn 0 60 64 0, NoteOn 0 64 64 0, NoteOff 0 60 64 10, NoteOn 0 62 64 0,
                NoteOff 0 62 0 5]"
  have h: "\<forall>m\<in>set ?track. 0 \<le> time m" by simp
  have k: "map fst (filter (kept_at_cut 10) (with_abs 0 ?track)) =
             [NoteOn 0 60 64 0, NoteOff 0 60 64 10, OtherMsg ''set_tempo'' 0]"
    by (simp add: kept_at_cut_def is_on_def)
  have s: "sounding_keys {} [NoteOn 0 60 64 0, NoteOff 0 60 64 10, OtherMsg ''set_tempo'' 0] = {}"
    by (simp add: is_on_def is_off_def msg_key_def)
  from cut_boundary_policy [OF h, where cut_tick = 10, THEN conjunct1]
  obtain closing where
    c: "cut_track 10 ?track =
          map fst (filter (kept_at_cut 10) (with_abs 0 ?track)) @ closing @ [end_of_track] \<and>
        (\<forall>m\<in>set closing. \<exists>ch n d. m = NoteOff ch n 0 d) \<and>
        distinct (map msg_key closing) \<and>
        set (map msg_key closing) =
          (if \<exists>x\<in>set (with_abs 0 ?track). 10 < snd x
           then sounding_keys {} (map fst (filter (kept_at_cut 10) (with_abs 0 ?track)))
           else {}) \<and>
        (closing \<noteq> [] \<longrightarrow>
           time (hd closing) =
             10 - total_time (map fst (filter (\<lambda>x. snd x \<le> 10) (with_abs 0 ?track)))) \<and>
        (\<forall>m\<in>set (tl closing). time m = 0)"
    ..
  note c1 = c [THEN conjunct1]
    and c4 = c [THEN conjunct2, THEN conjunct2, THEN conjunct2, THEN conjunct1]
  have "set (map msg_key closing) = {}"
    using c4 unfolding k s by (simp only: if_cancel)
  then have "closing = []" by simp
  with c1 have first: "cut_track 10 ?track =
     [NoteOn 0 60 64 0, NoteOff 0 60 64 10, OtherMsg ''set_tempo'' 0, end_of_track]"
    unfolding k by simp
  have h': "\<forall>m\<in>set ?held. 0 \<le> time m" by simp
  have k': "map fst (filter (kept_at_cut 10) (with_abs 0 ?held)) =
             [NoteOn 0 60 64 0, NoteOn 0 64 64 0, NoteOff 0 60 64 10]"
    by (simp add: kept_at_cut_def is_on_def)
  have s': "sounding_keys {} [NoteOn 0 60 64 0, NoteOn 0 64 64 0, NoteOff 0 60 64 10] = {(0, 64)}"
    by (simp add: is_on_def is_off_def msg_key_def insert_Diff_if)
  have l': "(\<exists>x\<in>set (with_abs 0 ?held). 10 < snd x) = True" by simp
  have p': "total_time (map fst (filter (\<lambda>x. snd x \<le> 10) (with_abs 0 ?held))) = 10"
    by (simp add: total_time_def)
  from cut_boundary_policy [OF h', where cut_tick = 10, THEN conjunct1]
  obtain closing' where
    c': "cut_track 10 ?held =
          map fst (filter (kept_at_cut 10) (with_abs 0 ?held)) @ closing' @ [end_of_track] \<and>
        (\<forall>m\<in>set closing'. \<exists>ch n d. m = NoteOff ch n 0 d) \<and>
        distinct (map msg_key closing') \<and>
        set (map msg_key closing') =
          (if \<exists>x\<in>set (with_abs 0 ?held). 10 < snd x
           then sounding_keys {} (map fst (filter (kept_at_cut 10) (with_abs 0 ?held)))
           else {}) \<and>
        (closing' \<noteq> [] \<longrightarrow>
           time (hd closing') =
             10 - total_time (map fst (filter (\<lambda>x. snd x \<le> 10) (with_abs 0 ?held)))) \<and>
        (\<forall>m\<in>set (tl closing'). time m = 0)"
    ..
  note c1' = c' [THEN conjunct1]
    and c4' = c' [THEN conjunct2, THEN conjunct2, THEN conjunct2, THEN conjunct1]
    and c5' = c' [THEN conjunct2, THEN conjunct2, THEN conjunct2, THEN conjunct2, THEN conjunct1]
  have keys: "set (map msg_key closing') = {(0, 64)}"
    using c4' unfolding k' s' l' by (simp only: if_True)
  then have ne: "closing' \<noteq> []" by auto
  have tm: "time (hd closing') = 0"
    using c5' ne unfolding p' by simp
  have out: "cut_track 10 ?held =
        [NoteOn 0 60 64 0, NoteOn 0 64 64 0, NoteOff 0 60 64 10] @ closing' @ [end_of_track]"
    using c1' unfolding k' .
  have second: "\<exists>closing.
      cut_track 10 ?held =
        [NoteOn 0 60 64 0, NoteOn 0 64 64 0, NoteOff 0 60 64 10] @ closing @ [end_of_track] \<and>
      set (map msg_key closing) = {(0, 64)} \<and> time (hd closing) = 0"
    using out keys tm by (intro exI [of _ closing'] conjI)
  from first second show ?thesis by (rule conjI)
qed

text \<open>
  Claim C2 (total time of a cut track), at an input where it fails. The track has an On at
  tick 0 that is still sounding, a second On exactly at the cut tick 10 (delta 10) and a
  message after the cut. The On at the cut is dropped together with its delta time, the
  residual delta is computed from the input clock as \<open>10 - 10 = 0\<close>, and the synthesized Off
  is written with delta 0: the output track lasts 0 ticks, not 10, and the Off sounds at
  tick 0.
\<close>

theorem cut_track_loses_delta_of_dropped_on:
  "cut_track 10 [NoteOn 0 60 64 0, NoteOn 0 62 64 10, NoteOff 0 62 0 5] =
     [NoteOn 0 60 64 0, NoteOff 0 60 0 0, end_of_track] \<and>
   total_time (cut_track 10 [NoteOn 0 60 64 0, NoteOn 0 62 64 10, NoteOff 0 62 0 5]) = 0"
  by (simp add: cut_track_def track_active_def is_on_def is_off_def total_time_def end_of_track_def)

end
